theory Spec2Isabelle
  imports Main
begin

section \<open>The procedural board generator of src/maps/procedural\_board.py\<close>

text \<open>
  The class \<^verbatim>\<open>ProceduralBoard\<close> carves a maze into a grid of characters that its
  caller supplies. The cells hold \<^verbatim>\<open>'.'\<close> (unvisited), \<^verbatim>\<open>'X'\<close> (carved) and
  \<^verbatim>\<open>'O'\<close> (sealed) while the generator runs; \<^verbatim>\<open>polishBoard\<close> turns \<^verbatim>\<open>'X'\<close> into
  \<^verbatim>\<open>'#'\<close> and \<^verbatim>\<open>'O'\<close> into \<^verbatim>\<open>'.'\<close>.
\<close>

subsection \<open>Python values: exceptions, list indexing, the random module\<close>

text \<open>
  \<open>IndexError\<close> is what a list access out of range raises and \<open>ValueError\<close> what
  \<^verbatim>\<open>random.randint(a, b)\<close> raises on an empty range. \<open>InvalidDimensions\<close> is the
  error kind the specification names; no statement of the source raises it.
\<close>

datatype error = IndexError | ValueError | InvalidDimensions

text \<open>
  \<^verbatim>\<open>xs[i]\<close>: a negative index counts from the end, and an index outside
  \<open>-len .. len - 1\<close> raises.
\<close>

definition normIndex :: "nat \<Rightarrow> int \<Rightarrow> error + nat" where
  "normIndex n i =
     (let j = (if i < 0 then int n + i else i)
      in if 0 \<le> j \<and> j < int n then Inr (nat j) else Inl IndexError)"

text \<open>\<^verbatim>\<open>board[r][c]\<close> as an expression, and \<^verbatim>\<open>board[r][c] = v\<close>. The rows are taken
  to be distinct list objects.\<close>

definition getCell :: "char list list \<Rightarrow> int \<Rightarrow> int \<Rightarrow> error + char" where
  "getCell b r c =
     (case normIndex (length b) r of
        Inl e \<Rightarrow> Inl e
      | Inr i \<Rightarrow>
          (case normIndex (length (b ! i)) c of
             Inl e \<Rightarrow> Inl e
           | Inr j \<Rightarrow> Inr (b ! i ! j)))"

definition setCell :: "char list list \<Rightarrow> int \<Rightarrow> int \<Rightarrow> char \<Rightarrow> error + char list list" where
  "setCell b r c v =
     (case normIndex (length b) r of
        Inl e \<Rightarrow> Inl e
      | Inr i \<Rightarrow>
          (case normIndex (length (b ! i)) c of
             Inl e \<Rightarrow> Inl e
           | Inr j \<Rightarrow> Inr (b[i := (b ! i)[j := v]])))"

text \<open>\<^verbatim>\<open>range(n)\<close> for an integer \<open>n\<close>; empty when \<open>n \<le> 0\<close>.\<close>

definition range_py :: "int \<Rightarrow> int list" where
  "range_py n = [0..n - 1]"

text \<open>
  The process-wide generator of Python's \<^verbatim>\<open>random\<close> module is not code of the
  repository. Its state is taken as the infinite sequence of raw numbers it is going to
  produce; every call of \<^verbatim>\<open>randint\<close> or \<^verbatim>\<open>choice\<close> consumes the next raw number and
  reduces it to the range asked for.
\<close>

type_synonym rng = "nat \<Rightarrow> nat"

definition advance :: "nat \<Rightarrow> rng \<Rightarrow> rng" where
  "advance k g = (\<lambda>i. g (i + k))"

definition randint :: "int \<Rightarrow> int \<Rightarrow> rng \<Rightarrow> error + (int \<times> rng)" where
  "randint a b g =
     (if b < a then Inl ValueError
      else Inr (a + int (g 0 mod nat (b - a + 1)), advance 1 g))"

definition choice :: "'a list \<Rightarrow> rng \<Rightarrow> error + ('a \<times> rng)" where
  "choice xs g =
     (if xs = [] then Inl IndexError
      else Inr (xs ! (g 0 mod length xs), advance 1 g))"

subsection \<open>The object and the state of a run\<close>

text \<open>
  The object, with the fields of \<^verbatim>\<open>self\<close>. The list \<^verbatim>\<open>self.path\<close> is kept in Python's
  order: \<^verbatim>\<open>append\<close> adds at the end and \<^verbatim>\<open>pop\<close> removes the last element.
\<close>

record ProceduralBoard =
  board :: "char list list"
  boardWidth :: int
  boardHeight :: int
  finished :: bool
  path :: "(int \<times> int) list"
  isBacktracking :: bool
  seed :: "int option"

text \<open>
  A call of \<^verbatim>\<open>procedurelyGeneratedBoard\<close> works on the object, on its local variable
  \<^verbatim>\<open>currentCell\<close> (a two-element list \<^verbatim>\<open>[row, column]\<close>) and on the process-wide
  state of the random module, which does not belong to the object. The three together
  are the state that the functions below pass along.
\<close>

record run = ProceduralBoard +
  currentCell :: "int \<times> int"
  rng :: rng

definition withLocals :: "ProceduralBoard \<Rightarrow> int \<times> int \<Rightarrow> rng \<Rightarrow> run" where
  "withLocals self cc g =
     \<lparr> board = board self, boardWidth = boardWidth self, boardHeight = boardHeight self,
       finished = finished self, path = path self, isBacktracking = isBacktracking self,
       seed = seed self, currentCell = cc, rng = g \<rparr>"

text \<open>
  \<^verbatim>\<open>__init__\<close> has two effects. It fills in the fields of the new object: \<open>init\<close>. And
  when a seed is given it reseeds the process-wide generator, whatever state \<open>g\<close> that
  was in: \<open>seedRandom\<close>, where \<open>mkrng\<close> stands for \<^verbatim>\<open>random.seed\<close>, the sequence the
  library produces after seeding with a given number. The object keeps the seed, not
  the generator: a later call draws from the state the module is in by then.
\<close>

definition init :: "char list list \<Rightarrow> int \<Rightarrow> int \<Rightarrow> int option \<Rightarrow> ProceduralBoard" where
  "init b w h sd =
     \<lparr> board = b, boardWidth = w, boardHeight = h, finished = False, path = [],
       isBacktracking = False, seed = sd \<rparr>"


definition getBoard :: "'a ProceduralBoard_scheme \<Rightarrow> char list list" where
  "getBoard s = board s"

subsection \<open>The helpers\<close>

text \<open>All pairs \<open>(i, j)\<close> in the order of the nested \<^verbatim>\<open>for\<close> loops.\<close>

definition cells :: "run \<Rightarrow> (int \<times> int) list" where
  "cells s = List.product (range_py (boardHeight s)) (range_py (boardWidth s))"

fun noDotsIn :: "char list list \<Rightarrow> (int \<times> int) list \<Rightarrow> error + bool" where
  "noDotsIn b [] = Inr True"
| "noDotsIn b ((i, j) # ps) =
     (case getCell b i j of
        Inl e \<Rightarrow> Inl e
      | Inr x \<Rightarrow> if x = CHR ''.'' then Inr False else noDotsIn b ps)"

definition checkIfThereAreNoMoreDotsInTheBoard :: "run \<Rightarrow> error + bool" where
  "checkIfThereAreNoMoreDotsInTheBoard s = noDotsIn (board s) (cells s)"

text \<open>
  One of the four \<^verbatim>\<open>if ... elif ...\<close> blocks of \<^verbatim>\<open>getBlockedDirections\<close>: the
  direction \<open>k\<close> is blocked when the neighbour lies outside, or else when it holds
  \<open>character\<close> or \<^verbatim>\<open>'O'\<close>. (The source reads the neighbour once for each comparison;
  nothing is written in between.)
\<close>

definition blockedDirection ::
  "char list list \<Rightarrow> bool \<Rightarrow> int \<Rightarrow> int \<Rightarrow> char \<Rightarrow> int \<Rightarrow> error + int list" where
  "blockedDirection b outside r c character k =
     (if outside then Inr [k]
      else (case getCell b r c of
              Inl e \<Rightarrow> Inl e
            | Inr x \<Rightarrow> Inr (if x = character \<or> x = CHR ''O'' then [k] else [])))"

definition getBlockedDirections ::
  "run \<Rightarrow> int \<times> int \<Rightarrow> char \<Rightarrow> error + int list" where
  "getBlockedDirections s cc character =
     (let r = fst cc; c = snd cc; b = board s in
      case blockedDirection b (r + 1 \<ge> boardHeight s) (r + 1) c character 0 of
        Inl e \<Rightarrow> Inl e
      | Inr d0 \<Rightarrow>
      (case blockedDirection b (r - 1 < 0) (r - 1) c character 1 of
        Inl e \<Rightarrow> Inl e
      | Inr d1 \<Rightarrow>
      (case blockedDirection b (c + 1 \<ge> boardWidth s) r (c + 1) character 2 of
        Inl e \<Rightarrow> Inl e
      | Inr d2 \<Rightarrow>
      (case blockedDirection b (c - 1 < 0) r (c - 1) character 3 of
        Inl e \<Rightarrow> Inl e
      | Inr d3 \<Rightarrow> Inr (d0 @ d1 @ d2 @ d3)))))"

text \<open>One of the four blocks of \<^verbatim>\<open>foundUnvisitedCell\<close>.\<close>

definition unvisitedAt ::
  "char list list \<Rightarrow> bool \<Rightarrow> int \<Rightarrow> int \<Rightarrow> error + (int \<times> int) list" where
  "unvisitedAt b inside r c =
     (if inside
      then (case getCell b r c of
              Inl e \<Rightarrow> Inl e
            | Inr x \<Rightarrow> Inr (if x = CHR ''.'' then [(r, c)] else []))
      else Inr [])"

definition unvisitedCells :: "run \<Rightarrow> int \<times> int \<Rightarrow> error + (int \<times> int) list" where
  "unvisitedCells s cc =
     (let r = fst cc; c = snd cc; b = board s in
      case unvisitedAt b (r + 1 < boardHeight s) (r + 1) c of
        Inl e \<Rightarrow> Inl e
      | Inr u0 \<Rightarrow>
      (case unvisitedAt b (r - 1 \<ge> 0) (r - 1) c of
        Inl e \<Rightarrow> Inl e
      | Inr u1 \<Rightarrow>
      (case unvisitedAt b (c + 1 < boardWidth s) r (c + 1) of
        Inl e \<Rightarrow> Inl e
      | Inr u2 \<Rightarrow>
      (case unvisitedAt b (c - 1 \<ge> 0) r (c - 1) of
        Inl e \<Rightarrow> Inl e
      | Inr u3 \<Rightarrow> Inr (u0 @ u1 @ u2 @ u3)))))"

text \<open>
  \<^verbatim>\<open>foundUnvisitedCell\<close> returns a cell, or the empty list (here \<open>None\<close>) when there
  is none; only in the first case a random number is drawn.
\<close>

definition foundUnvisitedCell ::
  "run \<Rightarrow> int \<times> int \<Rightarrow> error + ((int \<times> int) option \<times> rng)" where
  "foundUnvisitedCell s cc =
     (case unvisitedCells s cc of
        Inl e \<Rightarrow> Inl e
      | Inr us \<Rightarrow>
          if us \<noteq> []
          then (case choice us (rng s) of
                  Inl e \<Rightarrow> Inl e
                | Inr (u, g) \<Rightarrow> Inr (Some u, g))
          else Inr (None, rng s))"

definition moveToSpecificCell ::
  "run \<Rightarrow> int \<times> int \<Rightarrow> char \<Rightarrow> error + run" where
  "moveToSpecificCell s cc character =
     (case setCell (board s) (fst cc) (snd cc) character of
        Inl e \<Rightarrow> Inl e
      | Inr b \<Rightarrow> Inr (s\<lparr>board := b\<rparr>))"

text \<open>The body of the two \<^verbatim>\<open>for\<close> loops of \<^verbatim>\<open>polishBoard\<close>, cell after cell.\<close>

fun polishCells :: "char list list \<Rightarrow> (int \<times> int) list \<Rightarrow> error + char list list" where
  "polishCells b [] = Inr b"
| "polishCells b ((i, j) # ps) =
     (case getCell b i j of
        Inl e \<Rightarrow> Inl e
      | Inr x \<Rightarrow>
      (case (if x = CHR ''X'' then setCell b i j CHR ''#'' else Inr b) of
        Inl e \<Rightarrow> Inl e
      | Inr b1 \<Rightarrow>
      (case getCell b1 i j of
        Inl e \<Rightarrow> Inl e
      | Inr y \<Rightarrow>
      (case (if y = CHR ''O'' then setCell b1 i j CHR ''.'' else Inr b1) of
        Inl e \<Rightarrow> Inl e
      | Inr b2 \<Rightarrow> polishCells b2 ps))))"

definition polishBoard :: "run \<Rightarrow> error + run" where
  "polishBoard s =
     (case polishCells (board s) (cells s) of
        Inl e \<Rightarrow> Inl e
      | Inr b \<Rightarrow> Inr (s\<lparr>board := b\<rparr>))"

subsection \<open>The forward move\<close>

text \<open>
  The loop \<^verbatim>\<open>while randomDirection in blockedDirections\<close> of \<^verbatim>\<open>move\<close>. Nothing bounds
  the number of its rounds: \<open>None\<close> is the loop that never ends.
\<close>

partial_function (option) redraw ::
  "int list \<Rightarrow> int \<Rightarrow> rng \<Rightarrow> (error + (int \<times> rng)) option" where
  "redraw blockedDirections randomDirection g =
     (if randomDirection \<in> set blockedDirections
      then (case randint 0 3 g of
              Inl e \<Rightarrow> Some (Inl e)
            | Inr (d, g') \<Rightarrow> redraw blockedDirections d g')
      else Some (Inr (randomDirection, g)))"

declare redraw.simps [code]

text \<open>One of the four \<^verbatim>\<open>if randomDirection == k\<close> blocks: write the neighbour, then
  change \<^verbatim>\<open>currentCell\<close> in place.\<close>

definition stepInto ::
  "int \<Rightarrow> int \<Rightarrow> int \<Rightarrow> int \<Rightarrow> char \<Rightarrow> run \<Rightarrow> error + run" where
  "stepInto randomDirection k dr dc character s =
     (if randomDirection = k
      then (let r = fst (currentCell s) + dr; c = snd (currentCell s) + dc in
            case setCell (board s) r c character of
              Inl e \<Rightarrow> Inl e
            | Inr b \<Rightarrow> Inr (s\<lparr>board := b, currentCell := (r, c)\<rparr>))
      else Inr s)"

text \<open>What \<^verbatim>\<open>move\<close> does once the direction is chosen.\<close>

definition moveInDirection ::
  "int \<Rightarrow> char \<Rightarrow> run \<Rightarrow> error + run" where
  "moveInDirection randomDirection character s =
     (case stepInto randomDirection 0 1 0 character s of
        Inl e \<Rightarrow> Inl e
      | Inr s0 \<Rightarrow>
      (case stepInto randomDirection 1 (- 1) 0 character s0 of
        Inl e \<Rightarrow> Inl e
      | Inr s1 \<Rightarrow>
      (case stepInto randomDirection 2 0 1 character s1 of
        Inl e \<Rightarrow> Inl e
      | Inr s2 \<Rightarrow>
      (case stepInto randomDirection 3 0 (- 1) character s2 of
        Inl e \<Rightarrow> Inl e
      | Inr s3 \<Rightarrow> Inr (s3\<lparr>path := path s3 @ [currentCell s3]\<rparr>)))))"

text \<open>
  \<^verbatim>\<open>move\<close>. Its parameter \<^verbatim>\<open>currentCell\<close> is the very list object the caller holds in
  its local variable, so the field \<open>currentCell\<close> stands for both.
\<close>

definition move ::
  "run \<Rightarrow> int list \<Rightarrow> char \<Rightarrow> (error + run) option" where
  "move s blockedDirections character =
     (if length blockedDirections < 4
      then (case randint 0 3 (rng s) of
              Inl e \<Rightarrow> Some (Inl e)
            | Inr (d, g) \<Rightarrow>
                (case redraw blockedDirections d g of
                   None \<Rightarrow> None
                 | Some (Inl e) \<Rightarrow> Some (Inl e)
                 | Some (Inr (randomDirection, g')) \<Rightarrow>
                     Some (moveInDirection randomDirection character (s\<lparr>rng := g'\<rparr>))))
      else Some (Inr s))"

subsection \<open>The loops of procedurelyGeneratedBoard\<close>

text \<open>The inner loop \<^verbatim>\<open>while self.isBacktracking and len(self.path) > 0\<close>.\<close>

function backtrack :: "run \<Rightarrow> error + run" where
  "backtrack s =
     (if isBacktracking s \<and> length (path s) > 0
      then (let cc = last (path s);
                s1 = s\<lparr>path := butlast (path s), currentCell := cc\<rparr> in
            case moveToSpecificCell s1 cc CHR ''O'' of
              Inl e \<Rightarrow> Inl e
            | Inr s2 \<Rightarrow>
            (case foundUnvisitedCell s2 cc of
              Inl e \<Rightarrow> Inl e
            | Inr (unvisitedCell, g) \<Rightarrow>
            (case unvisitedCell of
              None \<Rightarrow> backtrack (s2\<lparr>rng := g\<rparr>)
            | Some u \<Rightarrow>
                (case moveToSpecificCell (s2\<lparr>rng := g, currentCell := u\<rparr>) u CHR ''X'' of
                   Inl e \<Rightarrow> Inl e
                 | Inr s3 \<Rightarrow> backtrack (s3\<lparr>isBacktracking := False\<rparr>)))))
      else Inr s)"
  by pat_completeness auto

termination
  by (relation "measure (\<lambda>s. length (path s))")
     (auto simp: moveToSpecificCell_def split: sum.splits)

text \<open>
  One round of the outer loop \<^verbatim>\<open>while not self.finished\<close>. The \<^verbatim>\<open>break\<close> that
  follows \<^verbatim>\<open>self.finished = True\<close> leaves the loop as the loop test would.
\<close>

definition loopBody :: "run \<Rightarrow> (error + run) option" where
  "loopBody s =
     (case backtrack s of
        Inl e \<Rightarrow> Some (Inl e)
      | Inr s1 \<Rightarrow>
          if isBacktracking s1 \<and> length (path s1) = 0
          then Some (Inr (s1\<lparr>finished := True\<rparr>))
          else
            (case getBlockedDirections s1 (currentCell s1) CHR ''X'' of
               Inl e \<Rightarrow> Some (Inl e)
             | Inr blockedDirections \<Rightarrow>
                 (let s2 = (if length blockedDirections = 4
                            then s1\<lparr>isBacktracking := True\<rparr> else s1) in
                  case move s2 blockedDirections CHR ''X'' of
                    None \<Rightarrow> None
                  | Some (Inl e) \<Rightarrow> Some (Inl e)
                  | Some (Inr s3) \<Rightarrow>
                      (case checkIfThereAreNoMoreDotsInTheBoard s3 of
                         Inl e \<Rightarrow> Some (Inl e)
                       | Inr nodots \<Rightarrow>
                           Some (Inr (if nodots then s3\<lparr>finished := True\<rparr> else s3))))))"

text \<open>The outer loop. \<open>None\<close> is a run that never leaves it.\<close>

partial_function (option) whileNotFinished ::
  "run \<Rightarrow> (error + run) option" where
  "whileNotFinished s =
     (if finished s then Some (Inr s)
      else (case loopBody s of
              None \<Rightarrow> None
            | Some (Inl e) \<Rightarrow> Some (Inl e)
            | Some (Inr s') \<Rightarrow> whileNotFinished s'))"

declare whileNotFinished.simps [code]

text \<open>
  The state the outer loop has reached after at most \<open>n\<close> rounds: it stops earlier
  when \<open>finished\<close> is set. This is the run observed with a step counter.
\<close>

fun rounds :: "nat \<Rightarrow> run \<Rightarrow> (error + run) option" where
  "rounds 0 s = Some (Inr s)"
| "rounds (Suc n) s =
     (if finished s then Some (Inr s)
      else (case loopBody s of
              None \<Rightarrow> None
            | Some (Inl e) \<Rightarrow> Some (Inl e)
            | Some (Inr s') \<Rightarrow> rounds n s'))"

text \<open>
  The two statements before the loop, on the object \<open>self\<close> with the random module in
  state \<open>g\<close>: draw the start cell, row first, and carve it.
\<close>

definition chooseStart :: "ProceduralBoard \<Rightarrow> rng \<Rightarrow> error + run" where
  "chooseStart self g =
     (case randint 0 (boardHeight self - 1) g of
        Inl e \<Rightarrow> Inl e
      | Inr (r, g1) \<Rightarrow>
      (case randint 0 (boardWidth self - 1) g1 of
        Inl e \<Rightarrow> Inl e
      | Inr (c, g2) \<Rightarrow>
      (case setCell (board self) r c CHR ''X'' of
        Inl e \<Rightarrow> Inl e
      | Inr b \<Rightarrow> Inr (withLocals (self\<lparr>board := b\<rparr>) (r, c) g2))))"

text \<open>
  \<^verbatim>\<open>procedurelyGeneratedBoard\<close>, called on the object \<open>self\<close> when the random module is
  in state \<open>g\<close>. The result is the state in which the call returns: the object, whose
  board the caller reads with \<^verbatim>\<open>getBoard\<close>, and the state it leaves the random module
  in.
\<close>

definition procedurelyGeneratedBoard ::
  "ProceduralBoard \<Rightarrow> rng \<Rightarrow> (error + run) option" where
  "procedurelyGeneratedBoard self g =
     (case chooseStart self g of
        Inl e \<Rightarrow> Some (Inl e)
      | Inr s0 \<Rightarrow>
          (case whileNotFinished s0 of
             None \<Rightarrow> None
           | Some (Inl e) \<Rightarrow> Some (Inl e)
           | Some (Inr s') \<Rightarrow>
               if finished s' then Some (polishBoard s') else Some (Inr s')))"




section \<open>Notions used in the statements and proofs\<close>

text \<open>A board of \<open>h\<close> rows with \<open>w\<close> cells each, and a position inside such a board.\<close>

definition grid :: "int \<Rightarrow> int \<Rightarrow> char list list \<Rightarrow> bool" where
  "grid h w b \<longleftrightarrow> int (length b) = h \<and> (\<forall>row \<in> set b. int (length row) = w)"

definition inGrid :: "int \<Rightarrow> int \<Rightarrow> int \<times> int \<Rightarrow> bool" where
  "inGrid h w p \<longleftrightarrow> 0 \<le> fst p \<and> fst p < h \<and> 0 \<le> snd p \<and> snd p < w"

text \<open>What \<open>getCell\<close> reads and what \<open>setCell\<close> returns at a position inside the board.\<close>

definition cellOf :: "char list list \<Rightarrow> int \<times> int \<Rightarrow> char" where
  "cellOf b p = b ! nat (fst p) ! nat (snd p)"

definition putCell :: "char list list \<Rightarrow> int \<times> int \<Rightarrow> char \<Rightarrow> char list list" where
  "putCell b p v = b[nat (fst p) := (b ! nat (fst p))[nat (snd p) := v]]"

text \<open>The neighbour in direction 0 (next row), 1 (previous row), 2 (next column) or
  3 (previous column), as \<^verbatim>\<open>move\<close> and \<^verbatim>\<open>getBlockedDirections\<close> number them.\<close>

definition neighbour :: "int \<times> int \<Rightarrow> int \<Rightarrow> int \<times> int" where
  "neighbour p d =
     (if d = 0 then (fst p + 1, snd p)
      else if d = 1 then (fst p - 1, snd p)
      else if d = 2 then (fst p, snd p + 1)
      else (fst p, snd p - 1))"

text \<open>The test of \<^verbatim>\<open>getBlockedDirections\<close> for one direction, and the test of
  \<^verbatim>\<open>foundUnvisitedCell\<close> for one cell.\<close>

definition isBlocked :: "run \<Rightarrow> int \<times> int \<Rightarrow> char \<Rightarrow> int \<Rightarrow> bool" where
  "isBlocked s p character d \<longleftrightarrow>
     \<not> inGrid (boardHeight s) (boardWidth s) (neighbour p d)
     \<or> cellOf (board s) (neighbour p d) = character
     \<or> cellOf (board s) (neighbour p d) = CHR ''O''"

definition isUnvisited :: "run \<Rightarrow> int \<times> int \<Rightarrow> bool" where
  "isUnvisited s p \<longleftrightarrow>
     inGrid (boardHeight s) (boardWidth s) p \<and> cellOf (board s) p = CHR ''.''"

text \<open>The number that the \<open>j\<close>-th of a series of calls \<^verbatim>\<open>random.randint(0, 3)\<close>
  returns.\<close>

definition dirAt :: "rng \<Rightarrow> nat \<Rightarrow> int" where
  "dirAt g j = int (g j mod 4)"

text \<open>A random source is fair when each of the four directions is drawn again and
  again: this is what lets every redraw loop of \<^verbatim>\<open>move\<close> end.\<close>

definition fair :: "rng \<Rightarrow> bool" where
  "fair g \<longleftrightarrow> (\<forall>i. \<forall>d<4. \<exists>j\<ge>i. g j mod 4 = d)"

text \<open>What \<^verbatim>\<open>polishBoard\<close> makes of one cell.\<close>

definition polishChar :: "char \<Rightarrow> char" where
  "polishChar x = (if x = CHR ''X'' then CHR ''#'' else if x = CHR ''O'' then CHR ''.'' else x)"

text \<open>The board has the dimensions the object records, and the cursor and the cells on
  the stack lie inside it.\<close>

definition wellFormed :: "run \<Rightarrow> bool" where
  "wellFormed s \<longleftrightarrow>
     grid (boardHeight s) (boardWidth s) (board s)
     \<and> inGrid (boardHeight s) (boardWidth s) (currentCell s)
     \<and> (\<forall>p \<in> set (path s). inGrid (boardHeight s) (boardWidth s) p)"

text \<open>One round of the backtracking loop on a well-formed state, without the error
  branches: pop the last cell, seal it, and carve one of its unvisited neighbours if it
  has any.\<close>

definition popStep :: "run \<Rightarrow> run" where
  "popStep s =
     (let cc = last (path s);
          s2 = s\<lparr>board := putCell (board s) cc CHR ''O'', path := butlast (path s),
                 currentCell := cc\<rparr>;
          us = filter (isUnvisited s2) (map (neighbour cc) [0, 1, 2, 3])
      in if us = [] then s2
         else (let u = us ! (rng s 0 mod length us)
               in s2\<lparr>rng := advance 1 (rng s), currentCell := u,
                      board := putCell (board s2) u CHR ''X'', isBacktracking := False\<rparr>))"

text \<open>The forward move in the direction of the \<open>k\<close>-th draw, which is the first draw that
  is not blocked.\<close>

definition carveStep :: "nat \<Rightarrow> run \<Rightarrow> run" where
  "carveStep k s =
     (let n = neighbour (currentCell s) (dirAt (rng s) k)
      in s\<lparr>rng := advance (Suc k) (rng s), board := putCell (board s) n CHR ''X'',
            currentCell := n, path := path s @ [n]\<rparr>)"

definition firstUnblocked :: "run \<Rightarrow> nat \<Rightarrow> bool" where
  "firstUnblocked s k \<longleftrightarrow>
     (\<forall>j<k. isBlocked s (currentCell s) CHR ''X'' (dirAt (rng s) j))
     \<and> \<not> isBlocked s (currentCell s) CHR ''X'' (dirAt (rng s) k)"

text \<open>The test at the end of a round.\<close>

definition noDots :: "run \<Rightarrow> bool" where
  "noDots s \<longleftrightarrow> (\<forall>p. inGrid (boardHeight s) (boardWidth s) p \<longrightarrow> cellOf (board s) p \<noteq> CHR ''.'')"

definition finishCheck :: "run \<Rightarrow> run" where
  "finishCheck s = (if noDots s then s\<lparr>finished := True\<rparr> else s)"

text \<open>The result \<open>y\<close> of the redraw loop started with the draw \<open>d\<close>: \<open>d\<close> itself when it
  is not blocked, and else the first later draw that is not.\<close>

definition firstDraw :: "int list \<Rightarrow> int \<Rightarrow> rng \<Rightarrow> error + (int \<times> rng) \<Rightarrow> bool" where
  "firstDraw bl d g y \<longleftrightarrow>
     (d \<notin> set bl \<and> y = Inr (d, g))
     \<or> (d \<in> set bl \<and> (\<exists>k. (\<forall>j<k. dirAt g j \<in> set bl) \<and> dirAt g k \<notin> set bl
                         \<and> y = Inr (dirAt g k, advance (Suc k) g)))"

text \<open>The cells that are neither carved nor sealed. Their number, plus one while the
  run is not backtracking, goes down by one in every round that does not end the run.\<close>

definition freeCells :: "int \<Rightarrow> int \<Rightarrow> char list list \<Rightarrow> (int \<times> int) set" where
  "freeCells h w b = {p. inGrid h w p \<and> cellOf b p \<noteq> CHR ''X'' \<and> cellOf b p \<noteq> CHR ''O''}"

definition potential :: "run \<Rightarrow> nat" where
  "potential s =
     card (freeCells (boardHeight s) (boardWidth s) (board s))
     + (if isBacktracking s then 0 else 1)"

text \<open>The loop invariant of the termination proof.\<close>

definition progress :: "nat \<Rightarrow> run \<Rightarrow> bool" where
  "progress n s \<longleftrightarrow> fair (rng s) \<and> (finished s \<or> (0 < potential s \<and> potential s \<le> n))"

text \<open>The start cell that the first two draws select, and the state on entry to the
  outer loop.\<close>

definition startCell :: "ProceduralBoard \<Rightarrow> rng \<Rightarrow> int \<times> int" where
  "startCell self g = (int (g 0 mod nat (boardHeight self)), int (g 1 mod nat (boardWidth self)))"

definition entered :: "ProceduralBoard \<Rightarrow> rng \<Rightarrow> run" where
  "entered self g =
     withLocals (self\<lparr>board := putCell (board self) (startCell self g) CHR ''X''\<rparr>)
       (startCell self g) (advance 2 g)"

text \<open>Inputs for the examples: the random source that first produces the numbers of a
  list and then counts on, a seeding function, and the all-unvisited grid.\<close>

definition tapeRng :: "nat list \<Rightarrow> rng" where
  "tapeRng xs i = (if i < length xs then xs ! i else i)"


definition freshGrid :: "int \<Rightarrow> int \<Rightarrow> char list list" where
  "freshGrid h w = replicate (nat h) (replicate (nat w) CHR ''.'')"

text \<open>The call of \<^verbatim>\<open>procedurelyGeneratedBoard\<close> on the object \<open>self\<close>, with the random
  module in state \<open>g\<close>, observed after at most \<open>n\<close> rounds of its outer loop.\<close>

definition generationAfter ::
  "nat \<Rightarrow> ProceduralBoard \<Rightarrow> rng \<Rightarrow> (error + run) option" where
  "generationAfter n self g =
     (case chooseStart self g of Inl e \<Rightarrow> Some (Inl e) | Inr s0 \<Rightarrow> rounds n s0)"

text \<open>The fields of a state that the examples show (a state itself holds the random
  source, a function).\<close>

definition observe ::
  "run \<Rightarrow> char list list \<times> (int \<times> int) list \<times> (int \<times> int) \<times> bool \<times> bool" where
  "observe s = (board s, path s, currentCell s, isBacktracking s, finished s)"

definition observed ::
  "(error + run) option
   \<Rightarrow> (error + char list list \<times> (int \<times> int) list \<times> (int \<times> int) \<times> bool \<times> bool) option" where
  "observed r = map_option (map_sum id observe) r"

text \<open>The object records the height \<open>h\<close> and the width \<open>w\<close>.\<close>

definition sized :: "int \<Rightarrow> int \<Rightarrow> run \<Rightarrow> bool" where
  "sized h w s \<longleftrightarrow> boardHeight s = h \<and> boardWidth s = w"

text \<open>The invariant of the backtrack stack, for the start cell \<open>st\<close>.\<close>

definition stackInv :: "int \<times> int \<Rightarrow> run \<Rightarrow> bool" where
  "stackInv st s \<longleftrightarrow>
     cellOf (board s) st = CHR ''X'' \<and> st \<notin> set (path s) \<and> distinct (path s)
     \<and> (\<forall>p \<in> set (path s). cellOf (board s) p = CHR ''X'')"

text \<open>Every cell of the board is one of the characters in \<open>A\<close>.\<close>

definition alphabet :: "char set \<Rightarrow> char list list \<Rightarrow> bool" where
  "alphabet A b \<longleftrightarrow> (\<forall>row \<in> set b. \<forall>x \<in> set row. x \<in> A)"


section \<open>Lemmas\<close>

declare backtrack.simps [simp del]

lemma getCell_inGrid:
  "grid h w b \<Longrightarrow> inGrid h w p \<Longrightarrow> getCell b (fst p) (snd p) = Inr (cellOf b p)"
  by (auto simp: grid_def inGrid_def getCell_def normIndex_def cellOf_def Let_def)

lemma setCell_inGrid:
  "grid h w b \<Longrightarrow> inGrid h w p \<Longrightarrow> setCell b (fst p) (snd p) v = Inr (putCell b p v)"
  by (auto simp: grid_def inGrid_def setCell_def normIndex_def putCell_def Let_def)

lemma grid_putCell: "grid h w b \<Longrightarrow> grid h w (putCell b p v)"
proof (cases "nat (fst p) < length b")
  case True
  assume g: "grid h w b"
  have "int (length row) = w" if "row \<in> set (putCell b p v)" for row
  proof -
    from that have "row = (b ! nat (fst p))[nat (snd p) := v] \<or> row \<in> set b"
      using set_update_subset_insert [of b "nat (fst p)"] by (auto simp: putCell_def)
    with g True show ?thesis by (auto simp: grid_def)
  qed
  with g show ?thesis by (simp add: grid_def putCell_def)
next
  case False
  assume "grid h w b"
  with False show ?thesis by (simp add: putCell_def list_update_beyond)
qed

lemma cellOf_putCell:
  "grid h w b \<Longrightarrow> inGrid h w p \<Longrightarrow> inGrid h w q \<Longrightarrow>
   cellOf (putCell b p v) q = (if q = p then v else cellOf b q)"
proof -
  assume g: "grid h w b" and p: "inGrid h w p" and q: "inGrid h w q"
  from g p have rp: "nat (fst p) < length b"
    by (auto simp: grid_def inGrid_def)
  with g have "int (length (b ! nat (fst p))) = w"
    by (simp add: grid_def)
  with p have cp: "nat (snd p) < length (b ! nat (fst p))"
    by (auto simp: inGrid_def)
  from g q have rq: "nat (fst q) < length b"
    by (auto simp: grid_def inGrid_def)
  from p q have eq: "q = p \<longleftrightarrow> nat (fst q) = nat (fst p) \<and> nat (snd q) = nat (snd p)"
    by (auto simp: inGrid_def prod_eq_iff)
  show ?thesis
    using rp cp rq by (auto simp: cellOf_def putCell_def nth_list_update eq)
qed

lemma getBlockedDirections_inGrid:
  assumes "grid (boardHeight s) (boardWidth s) (board s)"
      and "inGrid (boardHeight s) (boardWidth s) p"
  shows "getBlockedDirections s p ch = Inr (filter (isBlocked s p ch) [0, 1, 2, 3])"
proof -
  have rd: "getCell (board s) r c = Inr (cellOf (board s) (r, c))"
    if "inGrid (boardHeight s) (boardWidth s) (r, c)" for r c
    using getCell_inGrid [OF assms(1) that] by simp
  show ?thesis
    using assms(2)
    by (cases p) (auto simp: getBlockedDirections_def blockedDirection_def isBlocked_def
        neighbour_def Let_def rd inGrid_def)
qed

lemma unvisitedCells_inGrid:
  assumes "grid (boardHeight s) (boardWidth s) (board s)"
      and "inGrid (boardHeight s) (boardWidth s) p"
  shows "unvisitedCells s p = Inr (filter (isUnvisited s) (map (neighbour p) [0, 1, 2, 3]))"
proof -
  have rd: "getCell (board s) r c = Inr (cellOf (board s) (r, c))"
    if "inGrid (boardHeight s) (boardWidth s) (r, c)" for r c
    using getCell_inGrid [OF assms(1) that] by simp
  show ?thesis
    using assms(2)
    by (cases p) (auto simp: unvisitedCells_def unvisitedAt_def isUnvisited_def
        neighbour_def Let_def rd inGrid_def)
qed

lemma advance_apply: "advance k g i = g (i + k)"
  by (simp add: advance_def)

lemma advance_advance: "advance a (advance b g) = advance (a + b) g"
  by (simp add: advance_def fun_eq_iff add.assoc)

lemma advance_0 [simp]: "advance 0 g = g"
  by (simp add: advance_def)

lemma dirAt_advance [simp]: "dirAt (advance k g) j = dirAt g (j + k)"
  by (simp add: dirAt_def advance_def)

lemma fair_advance: "fair g \<Longrightarrow> fair (advance k g)"
  unfolding fair_def
proof (intro allI impI)
  fix i d :: nat
  assume f: "\<forall>i. \<forall>d<4. \<exists>j\<ge>i. g j mod 4 = d" and d: "d < 4"
  then obtain j where "j \<ge> i + k" "g j mod 4 = d" by blast
  then have "j - k \<ge> i \<and> advance k g (j - k) mod 4 = d" by (simp add: advance_def)
  then show "\<exists>j\<ge>i. advance k g j mod 4 = d" by blast
qed

lemma randint_0_3: "randint 0 3 g = Inr (dirAt g 0, advance 1 g)"
  by (simp add: randint_def dirAt_def)

lemma redraw_unblocked: "d \<notin> set bl \<Longrightarrow> redraw bl d g = Some (Inr (d, g))"
  by (subst redraw.simps) simp

lemma redraw_first:
  "d \<in> set bl \<Longrightarrow> \<forall>j<k. dirAt g j \<in> set bl \<Longrightarrow> dirAt g k \<notin> set bl \<Longrightarrow>
   redraw bl d g = Some (Inr (dirAt g k, advance (Suc k) g))"
proof (induction k arbitrary: d g)
  case 0
  then show ?case
    by (subst redraw.simps) (simp add: randint_0_3 redraw_unblocked)
next
  case (Suc k)
  have "redraw bl (dirAt g 0) (advance 1 g)
        = Some (Inr (dirAt (advance 1 g) k, advance (Suc k) (advance 1 g)))"
    using Suc.prems by (intro Suc.IH) auto
  with Suc.prems(1) show ?case
    by (subst redraw.simps) (simp add: randint_0_3 advance_advance)
qed

lemma move_first:
  assumes "length bl < 4" "\<forall>j<k. dirAt (rng s) j \<in> set bl" "dirAt (rng s) k \<notin> set bl"
  shows "move s bl ch
         = Some (moveInDirection (dirAt (rng s) k) ch (s\<lparr>rng := advance (Suc k) (rng s)\<rparr>))"
proof (cases k)
  case 0
  with assms show ?thesis
    by (simp add: move_def randint_0_3 redraw_unblocked)
next
  case (Suc m)
  have "redraw bl (dirAt (rng s) 0) (advance 1 (rng s))
        = Some (Inr (dirAt (advance 1 (rng s)) m, advance (Suc m) (advance 1 (rng s))))"
    using assms Suc by (intro redraw_first) auto
  with assms(1) Suc show ?thesis
    by (simp add: move_def randint_0_3 advance_advance)
qed

lemma fair_first:
  assumes "fair g" "d \<in> {0, 1, 2, 3}" "d \<notin> set bl"
  shows "\<exists>k. (\<forall>j<k. dirAt g j \<in> set bl) \<and> dirAt g k \<notin> set bl
              \<and> dirAt g k \<in> {0, 1, 2, 3}"
proof -
  from assms(2) have "nat d < 4" "int (nat d) = d" by auto
  with assms(1) obtain j where "g j mod 4 = nat d"
    unfolding fair_def by (metis le0)
  with \<open>int (nat d) = d\<close> assms(3) have ex: "dirAt g j \<notin> set bl"
    by (simp add: dirAt_def)
  define k where "k = (LEAST j. dirAt g j \<notin> set bl)"
  have "dirAt g k \<notin> set bl"
    unfolding k_def using ex by (rule LeastI)
  moreover have "\<forall>j<k. dirAt g j \<in> set bl"
    unfolding k_def using not_less_Least by blast
  moreover have "dirAt g k \<in> {0, 1, 2, 3}"
  proof -
    have "g k mod 4 < 4" by simp
    then have "g k mod 4 \<in> {0, 1, 2, 3}" by auto
    then show ?thesis unfolding dirAt_def by auto
  qed
  ultimately show ?thesis by blast
qed

lemma moveInDirection_inGrid:
  assumes "grid (boardHeight s) (boardWidth s) (board s)" "d \<in> {0, 1, 2, 3}"
      and "inGrid (boardHeight s) (boardWidth s) (neighbour (currentCell s) d)"
  shows "moveInDirection d ch s
         = Inr (s\<lparr>board := putCell (board s) (neighbour (currentCell s) d) ch,
                  currentCell := neighbour (currentCell s) d,
                  path := path s @ [neighbour (currentCell s) d]\<rparr>)"
proof -
  have wr: "setCell (board s) r c ch = Inr (putCell (board s) (r, c) ch)"
    if "inGrid (boardHeight s) (boardWidth s) (r, c)" for r c
    using setCell_inGrid [OF assms(1) that] by simp
  from assms(2,3) show ?thesis
    by (auto simp: moveInDirection_def stepInto_def neighbour_def Let_def wr)
qed

lemma set_cells: "set (cells s) = {p. inGrid (boardHeight s) (boardWidth s) p}"
  by (auto simp: cells_def range_py_def inGrid_def)

lemma noDotsIn_inGrid:
  "grid h w b \<Longrightarrow> \<forall>p\<in>set ps. inGrid h w p \<Longrightarrow>
   noDotsIn b ps = Inr (\<forall>p\<in>set ps. cellOf b p \<noteq> CHR ''.'')"
proof (induction ps)
  case Nil
  then show ?case by simp
next
  case (Cons p ps)
  obtain i j where p: "p = (i, j)" by (cases p)
  from Cons.prems have "getCell b i j = Inr (cellOf b p)"
    using getCell_inGrid [of h w b p] by (simp add: p)
  with Cons show ?case by (auto simp: p)
qed

lemma polishCells_inGrid:
  "grid h w b \<Longrightarrow> \<forall>p\<in>set ps. inGrid h w p \<Longrightarrow>
   \<exists>b'. polishCells b ps = Inr b' \<and> grid h w b'
      \<and> (\<forall>q. inGrid h w q \<longrightarrow>
            cellOf b' q = (if q \<in> set ps then polishChar (cellOf b q) else cellOf b q))"
proof (induction ps arbitrary: b)
  case Nil
  then show ?case by simp
next
  case (Cons p ps)
  obtain i j where p: "p = (i, j)" by (cases p)
  from Cons.prems have pin: "inGrid h w (i, j)" by (simp add: p)
  note g = Cons.prems(1)
  define b2 where "b2 = putCell b (i, j) (polishChar (cellOf b (i, j)))"
  have g2: "grid h w b2"
    unfolding b2_def using g by (rule grid_putCell)
  have c2: "cellOf b2 q = (if q = p then polishChar (cellOf b p) else cellOf b q)"
    if "inGrid h w q" for q
    unfolding b2_def p using cellOf_putCell [OF g pin that] .
  have same: "putCell b (i, j) (cellOf b (i, j)) = b"
    by (simp add: putCell_def cellOf_def)
  have rd: "getCell bb i j = Inr (cellOf bb (i, j))" if "grid h w bb" for bb
    using getCell_inGrid [OF that pin] by simp
  have wr: "setCell bb i j v = Inr (putCell bb (i, j) v)" if "grid h w bb" for bb v
    using setCell_inGrid [OF that pin] by simp
  have g1: "grid h w (putCell b (i, j) CHR ''#'')"
    using g by (rule grid_putCell)
  have c1: "cellOf (putCell b (i, j) CHR ''#'') (i, j) = CHR ''#''"
    using cellOf_putCell [OF g pin pin] by simp
  have step: "polishCells b (p # ps) = polishCells b2 ps"
  proof (cases "cellOf b (i, j) = CHR ''X''")
    case True
    then show ?thesis
      by (simp add: p rd [OF g] wr [OF g] rd [OF g1] c1 b2_def polishChar_def)
  next
    case False
    then show ?thesis
      by (cases "cellOf b (i, j) = CHR ''O''")
         (simp_all add: p rd [OF g] wr [OF g] b2_def polishChar_def same)
  qed
  from Cons.IH [OF g2] Cons.prems(2) obtain b' where
    r: "polishCells b2 ps = Inr b'" "grid h w b'"
       "\<forall>q. inGrid h w q \<longrightarrow>
            cellOf b' q = (if q \<in> set ps then polishChar (cellOf b2 q) else cellOf b2 q)"
    by auto
  have idem: "polishChar (polishChar x) = polishChar x" for x
    by (simp add: polishChar_def)
  have "cellOf b' q = (if q \<in> set (p # ps) then polishChar (cellOf b q) else cellOf b q)"
    if "inGrid h w q" for q
  proof -
    from r(3) that have "cellOf b' q = (if q \<in> set ps then polishChar (cellOf b2 q) else cellOf b2 q)"
      by blast
    moreover have "cellOf b2 p = polishChar (cellOf b p)"
      using c2 [of p] pin by (simp add: p)
    ultimately show ?thesis
      by (cases "q = p") (simp_all add: c2 [OF that] idem)
  qed
  with r(1,2) step show ?case by simp
qed

lemma dirAt_range: "dirAt g k \<in> {0, 1, 2, 3}"
proof -
  have "g k mod 4 < 4" by simp
  then have "g k mod 4 \<in> {0, 1, 2, 3}" by auto
  then show ?thesis unfolding dirAt_def by auto
qed

lemma backtrack_stop: "\<not> (isBacktracking s \<and> path s \<noteq> []) \<Longrightarrow> backtrack s = Inr s"
  by (subst backtrack.simps) auto

lemma backtrack_pop:
  assumes "isBacktracking s" "path s \<noteq> []"
      and "moveToSpecificCell (s\<lparr>path := butlast (path s), currentCell := last (path s)\<rparr>)
             (last (path s)) CHR ''O'' = Inr s2"
      and "foundUnvisitedCell s2 (last (path s)) = Inr (uo, g)"
  shows "backtrack s =
           (case uo of
              None \<Rightarrow> backtrack (s2\<lparr>rng := g\<rparr>)
            | Some u \<Rightarrow>
                (case moveToSpecificCell (s2\<lparr>rng := g, currentCell := u\<rparr>) u CHR ''X'' of
                   Inl e \<Rightarrow> Inl e
                 | Inr s3 \<Rightarrow> backtrack (s3\<lparr>isBacktracking := False\<rparr>)))"
  using assms by (subst backtrack.simps) (simp add: Let_def)

lemma nth_filter_mem: "filter P xs \<noteq> [] \<Longrightarrow> P (filter P xs ! (i mod length (filter P xs)))"
proof -
  assume "filter P xs \<noteq> []"
  then have "i mod length (filter P xs) < length (filter P xs)"
    by simp
  then have "filter P xs ! (i mod length (filter P xs)) \<in> set (filter P xs)"
    by (rule nth_mem)
  then show ?thesis by simp
qed

lemma popStep_facts:
  assumes "wellFormed s" "path s \<noteq> []"
  defines "cc \<equiv> last (path s)"
  defines "s2 \<equiv> s\<lparr>board := putCell (board s) cc CHR ''O'', path := butlast (path s),
                    currentCell := cc\<rparr>"
  defines "us \<equiv> filter (isUnvisited s2) (map (neighbour cc) [0, 1, 2, 3])"
  defines "u \<equiv> us ! (rng s 0 mod length us)"
  shows "wellFormed s2"
    and "us = [] \<Longrightarrow> popStep s = s2"
    and "us \<noteq> [] \<Longrightarrow> isUnvisited s2 u"
    and "us \<noteq> [] \<Longrightarrow> popStep s = s2\<lparr>rng := advance 1 (rng s), currentCell := u,
            board := putCell (board s2) u CHR ''X'', isBacktracking := False\<rparr>"
    and "isBacktracking s \<Longrightarrow> backtrack s = backtrack (popStep s)"
    and "wellFormed (popStep s)"
proof -
  let ?h = "boardHeight s" and ?w = "boardWidth s"
  from assms(1,2) have cc: "inGrid ?h ?w cc" by (simp add: wellFormed_def cc_def)
  from assms(1) have g: "grid ?h ?w (board s)" by (simp add: wellFormed_def)
  then have g1: "grid ?h ?w (putCell (board s) cc CHR ''O'')" by (simp add: grid_putCell)
  from assms(1) have pth: "\<forall>p\<in>set (butlast (path s)). inGrid ?h ?w p"
    by (auto simp: wellFormed_def dest: in_set_butlastD)
  show wf2: "wellFormed s2"
    using cc g1 pth by (simp add: wellFormed_def s2_def)
  show p1: "popStep s = s2" if "us = []"
    using that unfolding popStep_def Let_def us_def s2_def cc_def by simp
  show unv: "isUnvisited s2 u" if "us \<noteq> []"
    using that unfolding u_def us_def by (rule nth_filter_mem)
  show p2: "popStep s = s2\<lparr>rng := advance 1 (rng s), currentCell := u,
            board := putCell (board s2) u CHR ''X'', isBacktracking := False\<rparr>"
    if "us \<noteq> []"
    using that unfolding popStep_def Let_def us_def s2_def cc_def u_def by simp
  have s2f: "boardHeight s2 = ?h" "boardWidth s2 = ?w" "rng s2 = rng s"
    "board s2 = putCell (board s) cc CHR ''O''"
    by (simp_all add: s2_def)
  have m1: "moveToSpecificCell (s\<lparr>path := butlast (path s), currentCell := last (path s)\<rparr>)
             (last (path s)) CHR ''O'' = Inr s2"
    using setCell_inGrid [OF g cc] by (simp add: moveToSpecificCell_def s2_def cc_def)
  have uc: "unvisitedCells s2 cc = Inr us"
    unfolding us_def using wf2 cc
    by (intro unvisitedCells_inGrid) (simp_all add: wellFormed_def s2f)
  show "backtrack s = backtrack (popStep s)" if bt: "isBacktracking s"
  proof (cases "us = []")
    case True
    then have f: "foundUnvisitedCell s2 (last (path s)) = Inr (None, rng s2)"
      using uc by (simp add: foundUnvisitedCell_def cc_def)
    have "s2\<lparr>rng := rng s2\<rparr> = s2" by simp
    with backtrack_pop [OF bt assms(2) m1 f] p1 [OF True] show ?thesis by simp
  next
    case False
    then have f: "foundUnvisitedCell s2 (last (path s)) = Inr (Some u, advance 1 (rng s))"
      using uc by (simp add: foundUnvisitedCell_def cc_def choice_def u_def s2f)
    from unv [OF False] have uin: "inGrid ?h ?w u"
      by (simp add: isUnvisited_def s2f)
    have m2: "moveToSpecificCell (s2\<lparr>rng := g', currentCell := u\<rparr>) u CHR ''X''
              = Inr (s2\<lparr>rng := g', currentCell := u,
                         board := putCell (board s2) u CHR ''X''\<rparr>)" for g'
      using setCell_inGrid [OF g1 uin] by (simp add: moveToSpecificCell_def s2f)
    show ?thesis
      using backtrack_pop [OF bt assms(2) m1 f] by (simp add: m2 p2 [OF False])
  qed
  show "wellFormed (popStep s)"
  proof (cases "us = []")
    case True
    with wf2 p1 show ?thesis by simp
  next
    case False
    from unv [OF False] have "inGrid (boardHeight s2) (boardWidth s2) u"
      by (simp add: isUnvisited_def)
    with wf2 show ?thesis
      by (simp add: p2 [OF False] wellFormed_def grid_putCell)
  qed
qed

lemmas wellFormed_popStep = popStep_facts(6)

lemma backtrack_unfold:
  "wellFormed s \<Longrightarrow> isBacktracking s \<Longrightarrow> path s \<noteq> [] \<Longrightarrow> backtrack s = backtrack (popStep s)"
  by (rule popStep_facts(5))

lemma path_popStep: "length (path (popStep s)) = length (path s) - 1"
  by (simp add: popStep_def Let_def del: filter.simps list.map)

lemma backtrack_rule:
  assumes "wellFormed s" "Q s"
      and "\<And>t. wellFormed t \<Longrightarrow> Q t \<Longrightarrow> isBacktracking t \<Longrightarrow> path t \<noteq> [] \<Longrightarrow> Q (popStep t)"
  shows "\<exists>s1. backtrack s = Inr s1 \<and> wellFormed s1 \<and> Q s1
              \<and> \<not> (isBacktracking s1 \<and> path s1 \<noteq> [])"
  using assms(1,2)
proof (induction "length (path s)" arbitrary: s rule: less_induct)
  case less
  show ?case
  proof (cases "isBacktracking s \<and> path s \<noteq> []")
    case False
    with less.prems show ?thesis by (auto simp: backtrack_stop)
  next
    case True
    then have "length (path (popStep s)) < length (path s)"
      by (simp add: path_popStep)
    moreover have "wellFormed (popStep s)"
      using less.prems(1) True by (simp add: wellFormed_popStep)
    moreover have "Q (popStep s)"
      using less.prems True by (simp add: assms(3))
    ultimately have "\<exists>s1. backtrack (popStep s) = Inr s1 \<and> wellFormed s1 \<and> Q s1
              \<and> \<not> (isBacktracking s1 \<and> path s1 \<noteq> [])"
      by (rule less.hyps)
    with backtrack_unfold [OF less.prems(1)] True show ?thesis by simp
  qed
qed

lemma firstDraw_step:
  assumes "d \<in> set bl" "firstDraw bl (dirAt g 0) (advance 1 g) y"
  shows "firstDraw bl d g y"
  using assms(2) unfolding firstDraw_def
proof (elim disjE conjE exE)
  assume "dirAt g 0 \<notin> set bl" "y = Inr (dirAt g 0, advance 1 g)"
  then have "(\<forall>j<0. dirAt g j \<in> set bl) \<and> dirAt g 0 \<notin> set bl
             \<and> y = Inr (dirAt g 0, advance (Suc 0) g)" by simp
  with assms(1) show "(d \<notin> set bl \<and> y = Inr (d, g))
     \<or> (d \<in> set bl \<and> (\<exists>k. (\<forall>j<k. dirAt g j \<in> set bl) \<and> dirAt g k \<notin> set bl
                         \<and> y = Inr (dirAt g k, advance (Suc k) g)))" by blast
next
  fix k
  assume a: "dirAt g 0 \<in> set bl" "\<forall>j<k. dirAt (advance 1 g) j \<in> set bl"
    "dirAt (advance 1 g) k \<notin> set bl"
    "y = Inr (dirAt (advance 1 g) k, advance (Suc k) (advance 1 g))"
  have "\<forall>j<Suc k. dirAt g j \<in> set bl"
  proof (intro allI impI)
    fix j assume "j < Suc k"
    then show "dirAt g j \<in> set bl"
      using a(1,2) by (cases j) auto
  qed
  moreover from a(3) have "dirAt g (Suc k) \<notin> set bl" by simp
  moreover from a(4) have "y = Inr (dirAt g (Suc k), advance (Suc (Suc k)) g)"
    by (simp add: advance_advance)
  ultimately show "(d \<notin> set bl \<and> y = Inr (d, g))
     \<or> (d \<in> set bl \<and> (\<exists>k. (\<forall>j<k. dirAt g j \<in> set bl) \<and> dirAt g k \<notin> set bl
                         \<and> y = Inr (dirAt g k, advance (Suc k) g)))"
    using assms(1) by blast
qed

lemma redraw_Some:
  assumes "redraw bl d g = Some y"
  shows "firstDraw bl d g y"
proof (rule redraw.raw_induct [where P = firstDraw, OF _ assms])
  fix redraw' bl d g y
  assume ih: "\<And>d g b y. redraw' d g b = Some y \<Longrightarrow> firstDraw d g b y"
    and eq: "(if d \<in> set bl
              then case randint 0 3 g of Inl e \<Rightarrow> Some (Inl e)
                   | Inr (d', g') \<Rightarrow> redraw' bl d' g'
              else Some (Inr (d, g))) = Some y"
  show "firstDraw bl d g y"
  proof (cases "d \<in> set bl")
    case False
    with eq show ?thesis by (simp add: firstDraw_def)
  next
    case True
    with eq have "redraw' bl (dirAt g 0) (advance 1 g) = Some y"
      by (simp add: randint_0_3)
    then have "firstDraw bl (dirAt g 0) (advance 1 g) y" by (rule ih)
    with True show ?thesis by (rule firstDraw_step)
  qed
qed

lemma move_Some:
  assumes "length bl < 4" "move s bl ch = Some y"
  shows "\<exists>k. (\<forall>j<k. dirAt (rng s) j \<in> set bl) \<and> dirAt (rng s) k \<notin> set bl
           \<and> y = moveInDirection (dirAt (rng s) k) ch (s\<lparr>rng := advance (Suc k) (rng s)\<rparr>)"
proof -
  from assms obtain z where
    r: "redraw bl (dirAt (rng s) 0) (advance 1 (rng s)) = Some z"
    by (auto simp: move_def randint_0_3 split: option.splits)
  from redraw_Some [OF r] show ?thesis
    unfolding firstDraw_def
  proof (elim disjE conjE exE)
    assume a: "dirAt (rng s) 0 \<notin> set bl" "z = Inr (dirAt (rng s) 0, advance 1 (rng s))"
    with assms r have "y = moveInDirection (dirAt (rng s) 0) ch (s\<lparr>rng := advance (Suc 0) (rng s)\<rparr>)"
      by (simp add: move_def randint_0_3)
    with a(1) show ?thesis by (intro exI [of _ 0]) simp
  next
    fix k
    assume a: "dirAt (rng s) 0 \<in> set bl" "\<forall>j<k. dirAt (advance 1 (rng s)) j \<in> set bl"
      "dirAt (advance 1 (rng s)) k \<notin> set bl"
      "z = Inr (dirAt (advance 1 (rng s)) k, advance (Suc k) (advance 1 (rng s)))"
    have "\<forall>j<Suc k. dirAt (rng s) j \<in> set bl"
    proof (intro allI impI)
      fix j assume "j < Suc k"
      then show "dirAt (rng s) j \<in> set bl"
        using a(1,2) by (cases j) auto
    qed
    moreover from a(3) have "dirAt (rng s) (Suc k) \<notin> set bl" by simp
    moreover from a(4) assms r
    have "y = moveInDirection (dirAt (rng s) (Suc k)) ch (s\<lparr>rng := advance (Suc (Suc k)) (rng s)\<rparr>)"
      by (simp add: move_def randint_0_3 advance_advance)
    ultimately show ?thesis by blast
  qed
qed

lemma blockedList_mem:
  "d \<in> set (filter (isBlocked s p ch) [0, 1, 2, 3]) \<longleftrightarrow> d \<in> {0, 1, 2, 3} \<and> isBlocked s p ch d"
  by auto

lemma blockedList_dirAt:
  "dirAt g j \<in> set (filter (isBlocked s p ch) [0, 1, 2, 3]) \<longleftrightarrow> isBlocked s p ch (dirAt g j)"
  using dirAt_range [of g j] by (simp only: blockedList_mem) simp

lemma blockedList_full:
  "length (filter (isBlocked s p ch) [0, 1, 2, 3]) = 4 \<longleftrightarrow> (\<forall>d\<in>{0, 1, 2, 3}. isBlocked s p ch d)"
  by simp

lemma blockedList_less:
  "length (filter (isBlocked s p ch) [0, 1, 2, 3]) \<noteq> 4
   \<Longrightarrow> length (filter (isBlocked s p ch) [0, 1, 2, 3]) < 4"
  using length_filter_le [of "isBlocked s p ch" "[0, 1, 2, 3]"] by simp

lemma check_wellFormed:
  assumes "wellFormed s"
  shows "checkIfThereAreNoMoreDotsInTheBoard s = Inr (noDots s)"
proof -
  from assms have "grid (boardHeight s) (boardWidth s) (board s)"
    by (simp add: wellFormed_def)
  moreover have "\<forall>p\<in>set (cells s). inGrid (boardHeight s) (boardWidth s) p"
    by (simp add: set_cells)
  ultimately have "noDotsIn (board s) (cells s) = Inr (\<forall>p\<in>set (cells s). cellOf (board s) p \<noteq> CHR ''.'')"
    by (rule noDotsIn_inGrid)
  then show ?thesis
    by (simp add: checkIfThereAreNoMoreDotsInTheBoard_def noDots_def set_cells)
qed

lemma wellFormed_finished [simp]: "wellFormed (s\<lparr>finished := f\<rparr>) = wellFormed s"
  by (simp add: wellFormed_def)

lemma wellFormed_isBacktracking [simp]: "wellFormed (s\<lparr>isBacktracking := f\<rparr>) = wellFormed s"
  by (simp add: wellFormed_def)

lemma wellFormed_rng [simp]: "wellFormed (s\<lparr>rng := g\<rparr>) = wellFormed s"
  by (simp add: wellFormed_def)

lemma wellFormed_finishCheck [simp]: "wellFormed (finishCheck s) = wellFormed s"
  by (simp add: finishCheck_def)

lemma firstUnblocked_inGrid:
  "firstUnblocked s k \<Longrightarrow>
   inGrid (boardHeight s) (boardWidth s) (neighbour (currentCell s) (dirAt (rng s) k))"
  by (auto simp: firstUnblocked_def isBlocked_def)

lemma wellFormed_carveStep:
  assumes "wellFormed s" "firstUnblocked s k"
  shows "wellFormed (carveStep k s)"
  using assms firstUnblocked_inGrid [OF assms(2)]
  by (simp add: wellFormed_def carveStep_def Let_def grid_putCell)

lemma finishCheck_wellFormed:
  assumes "wellFormed s"
  shows "(case checkIfThereAreNoMoreDotsInTheBoard s of
            Inl e \<Rightarrow> Some (Inl e)
          | Inr nodots \<Rightarrow> Some (Inr (if nodots then s\<lparr>finished := True\<rparr> else s)))
         = Some (Inr (finishCheck s))"
  by (simp add: check_wellFormed [OF assms] finishCheck_def)

lemma loopBody_stop:
  assumes "backtrack s = Inr t" "isBacktracking t" "path t = []"
  shows "loopBody s = Some (Inr (t\<lparr>finished := True\<rparr>))"
  using assms by (simp add: loopBody_def)

lemma loopBody_switch:
  assumes "backtrack s = Inr t" "wellFormed t" "\<not> isBacktracking t"
      and "\<forall>d\<in>{0, 1, 2, 3}. isBlocked t (currentCell t) CHR ''X'' d"
  shows "loopBody s = Some (Inr (finishCheck (t\<lparr>isBacktracking := True\<rparr>)))"
proof -
  let ?bl = "filter (isBlocked t (currentCell t) CHR ''X'') [0, 1, 2, 3]"
  from assms(2) have gb: "getBlockedDirections t (currentCell t) CHR ''X'' = Inr ?bl"
    by (intro getBlockedDirections_inGrid) (simp_all add: wellFormed_def)
  from assms(4) have len: "length ?bl = 4" by (simp only: blockedList_full)
  have mv: "move (t\<lparr>isBacktracking := True\<rparr>) ?bl CHR ''X'' = Some (Inr (t\<lparr>isBacktracking := True\<rparr>))"
    unfolding move_def using len by (simp del: filter.simps)
  have wf: "wellFormed (t\<lparr>isBacktracking := True\<rparr>)" using assms(2) by simp
  show ?thesis
    unfolding loopBody_def
    by (simp only: assms(1) sum.case assms(3) simp_thms if_False gb Let_def len if_True mv
        option.case finishCheck_wellFormed [OF wf])
qed

lemma loopBody_carve:
  assumes "backtrack s = Inr t" "wellFormed t" "\<not> isBacktracking t" "firstUnblocked t k"
  shows "loopBody s = Some (Inr (finishCheck (carveStep k t)))"
proof -
  let ?bl = "filter (isBlocked t (currentCell t) CHR ''X'') [0, 1, 2, 3]"
  let ?d = "dirAt (rng t) k"
  from assms(2) have gb: "getBlockedDirections t (currentCell t) CHR ''X'' = Inr ?bl"
    by (intro getBlockedDirections_inGrid) (simp_all add: wellFormed_def)
  from assms(4) have nb: "\<not> isBlocked t (currentCell t) CHR ''X'' ?d"
    by (simp add: firstUnblocked_def)
  have "\<not> (\<forall>d\<in>{0, 1, 2, 3}. isBlocked t (currentCell t) CHR ''X'' d)"
    using nb dirAt_range [of "rng t" k] by blast
  then have len: "length ?bl \<noteq> 4" by (simp only: blockedList_full simp_thms)
  then have less: "length ?bl < 4" by (rule blockedList_less)
  have fu: "\<forall>j<k. dirAt (rng t) j \<in> set ?bl" "dirAt (rng t) k \<notin> set ?bl"
    using assms(4) by (auto simp only: blockedList_dirAt firstUnblocked_def)
  have "moveInDirection ?d CHR ''X'' (t\<lparr>rng := advance (Suc k) (rng t)\<rparr>) = Inr (carveStep k t)"
    using moveInDirection_inGrid [of "t\<lparr>rng := advance (Suc k) (rng t)\<rparr>" ?d "CHR ''X''"]
      assms(2) firstUnblocked_inGrid [OF assms(4)] dirAt_range [of "rng t" k]
    by (simp add: wellFormed_def carveStep_def Let_def)
  with move_first [OF less fu] have mv: "move t ?bl CHR ''X'' = Some (Inr (carveStep k t))"
    by simp
  have wf: "wellFormed (carveStep k t)" using assms(2,4) by (rule wellFormed_carveStep)
  show ?thesis
    unfolding loopBody_def
    by (simp only: assms(1) sum.case assms(3) simp_thms if_False gb Let_def len mv
        option.case finishCheck_wellFormed [OF wf])
qed

lemma loopBody_Some_cases:
  assumes "backtrack s = Inr t" "wellFormed t" "\<not> isBacktracking t" "loopBody s = Some y"
  shows "(\<forall>d\<in>{0, 1, 2, 3}. isBlocked t (currentCell t) CHR ''X'' d) \<or> (\<exists>k. firstUnblocked t k)"
proof (cases "\<forall>d\<in>{0, 1, 2, 3}. isBlocked t (currentCell t) CHR ''X'' d")
  case True
  then show ?thesis by blast
next
  case False
  let ?bl = "filter (isBlocked t (currentCell t) CHR ''X'') [0, 1, 2, 3]"
  from assms(2) have gb: "getBlockedDirections t (currentCell t) CHR ''X'' = Inr ?bl"
    by (intro getBlockedDirections_inGrid) (simp_all add: wellFormed_def)
  from False have len: "length ?bl \<noteq> 4" by (simp only: blockedList_full simp_thms)
  then have less: "length ?bl < 4" by (rule blockedList_less)
  have "move t ?bl CHR ''X'' \<noteq> None"
  proof
    assume "move t ?bl CHR ''X'' = None"
    then have "loopBody s = None"
      unfolding loopBody_def
      by (simp only: assms(1) sum.case assms(3) simp_thms if_False gb Let_def len option.case)
    with assms(4) show False by simp
  qed
  then obtain z where "move t ?bl CHR ''X'' = Some z" by blast
  from move_Some [OF less this] obtain k where
    "\<forall>j<k. dirAt (rng t) j \<in> set ?bl" "dirAt (rng t) k \<notin> set ?bl"
    by blast
  then have "firstUnblocked t k"
    by (simp only: blockedList_dirAt firstUnblocked_def simp_thms)
  then show ?thesis by blast
qed

lemma loopBody_rule:
  assumes "wellFormed s" "Q s" "loopBody s = Some y"
      and pop: "\<And>t. wellFormed t \<Longrightarrow> Q t \<Longrightarrow> isBacktracking t \<Longrightarrow> path t \<noteq> [] \<Longrightarrow> Q (popStep t)"
      and stop: "\<And>t. wellFormed t \<Longrightarrow> Q t \<Longrightarrow> isBacktracking t \<Longrightarrow> path t = []
                  \<Longrightarrow> R (t\<lparr>finished := True\<rparr>)"
      and switch: "\<And>t. wellFormed t \<Longrightarrow> Q t \<Longrightarrow> \<not> isBacktracking t
                  \<Longrightarrow> \<forall>d\<in>{0, 1, 2, 3}. isBlocked t (currentCell t) CHR ''X'' d
                  \<Longrightarrow> R (finishCheck (t\<lparr>isBacktracking := True\<rparr>))"
      and carve: "\<And>t k. wellFormed t \<Longrightarrow> Q t \<Longrightarrow> \<not> isBacktracking t \<Longrightarrow> firstUnblocked t k
                  \<Longrightarrow> R (finishCheck (carveStep k t))"
  shows "\<exists>s'. y = Inr s' \<and> wellFormed s' \<and> R s'"
proof -
  from backtrack_rule [of s Q, OF assms(1,2) pop] obtain t where
    t: "backtrack s = Inr t" "wellFormed t" "Q t" "\<not> (isBacktracking t \<and> path t \<noteq> [])"
    by blast
  show ?thesis
  proof (cases "isBacktracking t")
    case True
    with t(4) have e: "path t = []" by simp
    from loopBody_stop [OF t(1) True e] assms(3) have "y = Inr (t\<lparr>finished := True\<rparr>)" by simp
    with t(2) stop [OF t(2,3) True e] show ?thesis by simp
  next
    case False
    from loopBody_Some_cases [OF t(1,2) False assms(3)] show ?thesis
    proof (elim disjE exE)
      assume b: "\<forall>d\<in>{0, 1, 2, 3}. isBlocked t (currentCell t) CHR ''X'' d"
      from loopBody_switch [OF t(1,2) False b] assms(3)
      have "y = Inr (finishCheck (t\<lparr>isBacktracking := True\<rparr>))" by simp
      with t(2) switch [OF t(2,3) False b] show ?thesis by simp
    next
      fix k assume k: "firstUnblocked t k"
      from loopBody_carve [OF t(1,2) False k] assms(3)
      have "y = Inr (finishCheck (carveStep k t))" by simp
      with wellFormed_carveStep [OF t(2) k] carve [OF t(2,3) False k] show ?thesis by simp
    qed
  qed
qed

lemma fair_popStep: "fair (rng s) \<Longrightarrow> fair (rng (popStep s))"
  by (simp add: popStep_def Let_def fair_advance del: filter.simps list.map)

lemma loopBody_fair:
  assumes "wellFormed s" "fair (rng s)"
  shows "\<exists>y. loopBody s = Some y"
proof -
  from backtrack_rule [of s "\<lambda>t. fair (rng t)", OF assms] fair_popStep obtain t where
    t: "backtrack s = Inr t" "wellFormed t" "fair (rng t)" "\<not> (isBacktracking t \<and> path t \<noteq> [])"
    by blast
  show ?thesis
  proof (cases "isBacktracking t")
    case True
    with t(4) have e: "path t = []" by simp
    from loopBody_stop [OF t(1) True e] show ?thesis by simp
  next
    case False
    show ?thesis
    proof (cases "\<forall>d\<in>{0, 1, 2, 3}. isBlocked t (currentCell t) CHR ''X'' d")
      case True
      from loopBody_switch [OF t(1,2) False True] show ?thesis by simp
    next
      case f: False
      then obtain d where d: "d \<in> {0, 1, 2, 3}" "\<not> isBlocked t (currentCell t) CHR ''X'' d"
        by blast
      let ?bl = "filter (isBlocked t (currentCell t) CHR ''X'') [0, 1, 2, 3]"
      from d have "d \<notin> set ?bl" by (simp only: blockedList_mem simp_thms not_False_eq_True)
      from fair_first [OF t(3) d(1) this] obtain k where
        "\<forall>j<k. dirAt (rng t) j \<in> set ?bl" "dirAt (rng t) k \<notin> set ?bl" by blast
      then have "firstUnblocked t k"
        by (simp only: blockedList_dirAt firstUnblocked_def simp_thms)
      from loopBody_carve [OF t(1,2) False this] show ?thesis by simp
    qed
  qed
qed

lemma inGrid_set: "{p. inGrid h w p} = {0..<h} \<times> {0..<w}"
  by (auto simp: inGrid_def)

lemma finite_inGrid: "finite {p. inGrid h w p}"
  by (simp add: inGrid_set)

lemma card_inGrid: "card {p. inGrid h w p} = nat h * nat w"
  by (simp add: inGrid_set)

lemma finite_freeCells: "finite (freeCells h w b)"
  by (rule finite_subset [OF _ finite_inGrid [of h w]]) (auto simp: freeCells_def)

lemma freeCells_putCell:
  assumes "grid h w b" "inGrid h w p" "v = CHR ''X'' \<or> v = CHR ''O''"
  shows "freeCells h w (putCell b p v) = freeCells h w b - {p}"
proof (rule set_eqI)
  fix q
  show "q \<in> freeCells h w (putCell b p v) \<longleftrightarrow> q \<in> freeCells h w b - {p}"
  proof (cases "inGrid h w q")
    case True
    have "cellOf (putCell b p v) q = (if q = p then v else cellOf b q)"
      using assms(1,2) True by (rule cellOf_putCell)
    with True assms(3) show ?thesis
      by (cases "q = p") (auto simp: freeCells_def)
  next
    case False
    then show ?thesis by (simp add: freeCells_def)
  qed
qed

lemma card_freeCells_putCell_le:
  assumes "grid h w b" "inGrid h w p" "v = CHR ''X'' \<or> v = CHR ''O''"
  shows "card (freeCells h w (putCell b p v)) \<le> card (freeCells h w b)"
  unfolding freeCells_putCell [OF assms]
  by (rule card_mono [OF finite_freeCells]) blast

lemma card_freeCells_putCell_less:
  assumes "grid h w b" "p \<in> freeCells h w b" "v = CHR ''X'' \<or> v = CHR ''O''"
  shows "Suc (card (freeCells h w (putCell b p v))) = card (freeCells h w b)"
proof -
  from assms(2) have "inGrid h w p" by (simp add: freeCells_def)
  from freeCells_putCell [OF assms(1) this assms(3)]
  have "card (freeCells h w (putCell b p v)) = card (freeCells h w b - {p})" by simp
  also have "Suc \<dots> = card (freeCells h w b)"
    using finite_freeCells assms(2) by (rule card_Suc_Diff1)
  finally show ?thesis by simp
qed

lemma popStep_fields [simp]:
  "boardHeight (popStep s) = boardHeight s"
  "boardWidth (popStep s) = boardWidth s"
  "finished (popStep s) = finished s"
  "seed (popStep s) = seed s"
  "path (popStep s) = butlast (path s)"
  by (simp_all add: popStep_def Let_def del: filter.simps list.map)

lemma carveStep_fields [simp]:
  "boardHeight (carveStep k s) = boardHeight s"
  "boardWidth (carveStep k s) = boardWidth s"
  "finished (carveStep k s) = finished s"
  "seed (carveStep k s) = seed s"
  "isBacktracking (carveStep k s) = isBacktracking s"
  "rng (carveStep k s) = advance (Suc k) (rng s)"
  "currentCell (carveStep k s) = neighbour (currentCell s) (dirAt (rng s) k)"
  "path (carveStep k s) = path s @ [neighbour (currentCell s) (dirAt (rng s) k)]"
  "board (carveStep k s) = putCell (board s) (neighbour (currentCell s) (dirAt (rng s) k)) CHR ''X''"
  by (simp_all add: carveStep_def Let_def)

lemma finishCheck_fields [simp]:
  "boardHeight (finishCheck s) = boardHeight s"
  "boardWidth (finishCheck s) = boardWidth s"
  "seed (finishCheck s) = seed s"
  "isBacktracking (finishCheck s) = isBacktracking s"
  "rng (finishCheck s) = rng s"
  "currentCell (finishCheck s) = currentCell s"
  "path (finishCheck s) = path s"
  "board (finishCheck s) = board s"
  "finished (finishCheck s) \<longleftrightarrow> finished s \<or> noDots s"
  by (simp_all add: finishCheck_def)

lemma potential_finishCheck [simp]: "potential (finishCheck s) = potential s"
  by (simp add: potential_def)

lemma potential_popStep:
  assumes "wellFormed s" "path s \<noteq> []" "isBacktracking s"
  shows "potential (popStep s) \<le> potential s"
proof -
  let ?h = "boardHeight s" and ?w = "boardWidth s"
  define cc where "cc = last (path s)"
  define s2 where "s2 = s\<lparr>board := putCell (board s) cc CHR ''O'', path := butlast (path s),
                    currentCell := cc\<rparr>"
  define us where "us = filter (isUnvisited s2) (map (neighbour cc) [0, 1, 2, 3])"
  define u where "u = us ! (rng s 0 mod length us)"
  note f = popStep_facts [OF assms(1,2), folded cc_def, folded s2_def, folded us_def, folded u_def]
  from assms(1,2) have cc: "inGrid ?h ?w cc" by (simp add: wellFormed_def cc_def)
  from assms(1) have g: "grid ?h ?w (board s)" by (simp add: wellFormed_def)
  have le: "card (freeCells ?h ?w (board s2)) \<le> card (freeCells ?h ?w (board s))"
    using card_freeCells_putCell_le [OF g cc] by (simp add: s2_def)
  show ?thesis
  proof (cases "us = []")
    case True
    with f(2) le assms(3) show ?thesis by (simp add: potential_def s2_def)
  next
    case False
    from f(3) [OF False] have "u \<in> freeCells ?h ?w (board s2)"
      by (simp add: isUnvisited_def freeCells_def s2_def)
    moreover from f(1) have "grid ?h ?w (board s2)" by (simp add: wellFormed_def s2_def)
    ultimately have "Suc (card (freeCells ?h ?w (putCell (board s2) u CHR ''X'')))
                     = card (freeCells ?h ?w (board s2))"
      by (intro card_freeCells_putCell_less) simp_all
    with le assms(3) show ?thesis
      by (simp add: f(4) [OF False] potential_def s2_def)
  qed
qed

lemma potential_carveStep:
  assumes "wellFormed s" "firstUnblocked s k"
  shows "Suc (potential (carveStep k s)) = potential s"
proof -
  let ?n = "neighbour (currentCell s) (dirAt (rng s) k)"
  from assms(2) have "?n \<in> freeCells (boardHeight s) (boardWidth s) (board s)"
    by (simp add: firstUnblocked_def isBlocked_def freeCells_def)
  moreover from assms(1) have "grid (boardHeight s) (boardWidth s) (board s)"
    by (simp add: wellFormed_def)
  ultimately have "Suc (card (freeCells (boardHeight s) (boardWidth s) (putCell (board s) ?n CHR ''X'')))
                   = card (freeCells (boardHeight s) (boardWidth s) (board s))"
    by (intro card_freeCells_putCell_less) simp_all
  then show ?thesis by (simp add: potential_def)
qed

lemma potential_pos:
  assumes "\<not> noDots s"
  shows "0 < potential s"
proof -
  from assms obtain p where "inGrid (boardHeight s) (boardWidth s) p" "cellOf (board s) p = CHR ''.''"
    by (auto simp: noDots_def)
  then have "p \<in> freeCells (boardHeight s) (boardWidth s) (board s)"
    by (simp add: freeCells_def)
  then have "0 < card (freeCells (boardHeight s) (boardWidth s) (board s))"
    using finite_freeCells card_gt_0_iff by blast
  then show ?thesis by (simp add: potential_def)
qed

lemma loopBody_progress:
  assumes "wellFormed s" "progress (Suc n) s" "\<not> finished s"
  shows "\<exists>s'. loopBody s = Some (Inr s') \<and> wellFormed s' \<and> progress n s'"
proof -
  from assms(2) have fr: "fair (rng s)" by (simp add: progress_def)
  from loopBody_fair [OF assms(1) fr] obtain y where y: "loopBody s = Some y" by blast
  define Q where "Q = (\<lambda>t. fair (rng t) \<and> potential t \<le> Suc n)"
  from assms(2,3) have q: "Q s" by (simp add: progress_def Q_def)
  have "\<exists>s'. y = Inr s' \<and> wellFormed s' \<and> progress n s'"
  proof (rule loopBody_rule [of s Q, OF assms(1) q y])
    fix t assume "wellFormed t" "Q t" "isBacktracking t" "path t \<noteq> []"
    then show "Q (popStep t)"
      using potential_popStep [of t] fair_popStep [of t] by (simp add: Q_def)
  next
    fix t assume "wellFormed t" "Q t" "isBacktracking t" "path t = []"
    then show "progress n (t\<lparr>finished := True\<rparr>)" by (simp add: progress_def Q_def)
  next
    fix t assume a: "wellFormed t" "Q t" "\<not> isBacktracking t"
    let ?t = "t\<lparr>isBacktracking := True\<rparr>"
    from a(2,3) have "potential ?t \<le> n" by (simp add: potential_def Q_def)
    moreover have "0 < potential ?t" if "\<not> noDots ?t"
      using that by (rule potential_pos)
    ultimately show "progress n (finishCheck ?t)"
      using a(2) by (cases "noDots ?t") (simp_all add: progress_def Q_def)
  next
    fix t k assume a: "wellFormed t" "Q t" "\<not> isBacktracking t" "firstUnblocked t k"
    from potential_carveStep [OF a(1,4)] a(2) have "potential (carveStep k t) \<le> n"
      by (simp add: Q_def)
    moreover from a(3) have "0 < potential (carveStep k t)" by (simp add: potential_def)
    ultimately show "progress n (finishCheck (carveStep k t))"
      using a(2) by (simp add: progress_def Q_def fair_advance)
  qed
  with y show ?thesis by blast
qed

lemma rounds_finish:
  "wellFormed s \<Longrightarrow> progress n s \<Longrightarrow> \<exists>s'. rounds n s = Some (Inr s') \<and> finished s'"
proof (induction n arbitrary: s)
  case 0
  then show ?case by (auto simp: progress_def)
next
  case (Suc n)
  show ?case
  proof (cases "finished s")
    case True
    then show ?thesis by simp
  next
    case False
    from loopBody_progress [OF Suc.prems False] obtain s' where
      "loopBody s = Some (Inr s')" "wellFormed s'" "progress n s'" by blast
    with Suc.IH [of s'] False show ?thesis by simp
  qed
qed

lemma rounds_finished: "finished s \<Longrightarrow> rounds n s = Some (Inr s)"
  by (cases n) simp_all

lemma rounds_while:
  "rounds n s = Some (Inr s') \<Longrightarrow> finished s' \<Longrightarrow> whileNotFinished s = Some (Inr s')"
proof (induction n arbitrary: s)
  case 0
  then show ?case by (subst whileNotFinished.simps) simp
next
  case (Suc n)
  show ?case
  proof (cases "finished s")
    case True
    with Suc.prems show ?thesis by (subst whileNotFinished.simps) simp
  next
    case False
    with Suc.prems obtain t where t: "loopBody s = Some (Inr t)" "rounds n t = Some (Inr s')"
      by (auto split: option.splits sum.splits)
    from Suc.IH [OF t(2) Suc.prems(2)] t(1) False show ?thesis
      by (subst whileNotFinished.simps) simp
  qed
qed

lemma rounds_rule:
  assumes "wellFormed s" "Inv s" "rounds n s = Some y"
      and pop: "\<And>t. wellFormed t \<Longrightarrow> Inv t \<Longrightarrow> isBacktracking t \<Longrightarrow> path t \<noteq> [] \<Longrightarrow> Inv (popStep t)"
      and stop: "\<And>t. wellFormed t \<Longrightarrow> Inv t \<Longrightarrow> isBacktracking t \<Longrightarrow> path t = []
                  \<Longrightarrow> Inv (t\<lparr>finished := True\<rparr>)"
      and switch: "\<And>t. wellFormed t \<Longrightarrow> Inv t \<Longrightarrow> \<not> isBacktracking t
                  \<Longrightarrow> \<forall>d\<in>{0, 1, 2, 3}. isBlocked t (currentCell t) CHR ''X'' d
                  \<Longrightarrow> Inv (finishCheck (t\<lparr>isBacktracking := True\<rparr>))"
      and carve: "\<And>t k. wellFormed t \<Longrightarrow> Inv t \<Longrightarrow> \<not> isBacktracking t \<Longrightarrow> firstUnblocked t k
                  \<Longrightarrow> Inv (finishCheck (carveStep k t))"
  shows "\<exists>s'. y = Inr s' \<and> wellFormed s' \<and> Inv s'"
  using assms(1-3)
proof (induction n arbitrary: s)
  case 0
  then show ?case by auto
next
  case (Suc n)
  show ?case
  proof (cases "finished s")
    case True
    with Suc.prems show ?thesis by auto
  next
    case False
    from Suc.prems(3) False obtain z where z: "loopBody s = Some z"
      by (auto split: option.splits)
    from loopBody_rule [of s Inv z Inv, OF Suc.prems(1,2) z pop stop switch carve]
    obtain t where t: "z = Inr t" "wellFormed t" "Inv t" by blast
    with Suc.prems(3) False z have "rounds n t = Some y" by simp
    from Suc.IH [OF t(2,3) this] show ?thesis .
  qed
qed

lemma withLocals_fields [simp]:
  "board (withLocals self cc g) = board self"
  "boardWidth (withLocals self cc g) = boardWidth self"
  "boardHeight (withLocals self cc g) = boardHeight self"
  "finished (withLocals self cc g) = finished self"
  "path (withLocals self cc g) = path self"
  "isBacktracking (withLocals self cc g) = isBacktracking self"
  "seed (withLocals self cc g) = seed self"
  "currentCell (withLocals self cc g) = cc"
  "rng (withLocals self cc g) = g"
  by (simp_all add: withLocals_def)

lemma int_mod_less: "1 \<le> h \<Longrightarrow> int (x mod nat h) < h"
proof -
  assume h: "1 \<le> h"
  then have "x mod nat h < nat h" by (intro mod_less_divisor) simp
  then have "int (x mod nat h) < int (nat h)" by (simp only: of_nat_less_iff)
  with h show ?thesis by simp
qed

lemma advance_1_1: "advance 1 (advance 1 g) = advance 2 g"
  by (simp add: advance_def fun_eq_iff)

lemma startCell_inGrid:
  "1 \<le> boardHeight self \<Longrightarrow> 1 \<le> boardWidth self
   \<Longrightarrow> inGrid (boardHeight self) (boardWidth self) (startCell self g)"
  by (simp add: inGrid_def startCell_def int_mod_less)

lemma chooseStart_entered:
  assumes "1 \<le> boardHeight self" "1 \<le> boardWidth self"
      and "grid (boardHeight self) (boardWidth self) (board self)"
  shows "chooseStart self g = Inr (entered self g)"
proof -
  have r1: "randint 0 (boardHeight self - 1) g = Inr (fst (startCell self g), advance 1 g)"
    using assms(1) by (simp add: randint_def startCell_def)
  have r2: "randint 0 (boardWidth self - 1) (advance 1 g)
            = Inr (snd (startCell self g), advance 2 g)"
    using assms(2) by (simp add: randint_def startCell_def advance_1_1) (simp add: advance_def)
  have w: "setCell (board self) (fst (startCell self g)) (snd (startCell self g)) CHR ''X''
           = Inr (putCell (board self) (startCell self g) CHR ''X'')"
    using assms(3) startCell_inGrid [OF assms(1,2)] by (rule setCell_inGrid)
  show ?thesis
    by (simp only: chooseStart_def r1 r2 w entered_def sum.case prod.case prod.collapse)
qed

lemma entered_fields [simp]:
  "boardHeight (entered self g) = boardHeight self"
  "boardWidth (entered self g) = boardWidth self"
  "finished (entered self g) = finished self"
  "seed (entered self g) = seed self"
  "isBacktracking (entered self g) = isBacktracking self"
  "rng (entered self g) = advance 2 g"
  "currentCell (entered self g) = startCell self g"
  "path (entered self g) = path self"
  "board (entered self g) = putCell (board self) (startCell self g) CHR ''X''"
  by (simp_all add: entered_def)

lemma wellFormed_entered:
  assumes "1 \<le> boardHeight self" "1 \<le> boardWidth self"
      and "grid (boardHeight self) (boardWidth self) (board self)" "path self = []"
  shows "wellFormed (entered self g)"
  using assms startCell_inGrid [OF assms(1,2)] by (simp add: wellFormed_def grid_putCell)

lemma potential_entered:
  assumes "1 \<le> boardHeight self" "1 \<le> boardWidth self"
      and "grid (boardHeight self) (boardWidth self) (board self)" "\<not> isBacktracking self"
  shows "potential (entered self g) \<le> nat (boardWidth self * boardHeight self)"
proof -
  let ?h = "boardHeight self" and ?w = "boardWidth self"
  let ?b = "putCell (board self) (startCell self g) CHR ''X''"
  note st = startCell_inGrid [OF assms(1,2), of g]
  have "cellOf ?b (startCell self g) = CHR ''X''"
    using cellOf_putCell [OF assms(3) st st] by simp
  then have "freeCells ?h ?w ?b \<subseteq> {p. inGrid ?h ?w p} - {startCell self g}"
    by (auto simp: freeCells_def)
  then have "card (freeCells ?h ?w ?b) \<le> card ({p. inGrid ?h ?w p} - {startCell self g})"
    by (intro card_mono) (simp_all add: finite_inGrid)
  also have "\<dots> = nat ?h * nat ?w - 1"
    using st by (simp add: card_Diff_singleton card_inGrid)
  finally have "card (freeCells ?h ?w ?b) \<le> nat ?h * nat ?w - 1" .
  moreover from assms(1,2) have "0 < nat ?h * nat ?w" by simp
  ultimately have "card (freeCells ?h ?w ?b) + 1 \<le> nat ?h * nat ?w" by linarith
  moreover have "nat ?h * nat ?w = nat (?w * ?h)"
    using assms(1,2) by (simp add: nat_mult_distrib mult.commute)
  ultimately show ?thesis
    using assms(4) by (simp add: potential_def)
qed

lemma grid_map: "grid h w b \<Longrightarrow> grid h w (map (map f) b)"
  by (auto simp: grid_def)

lemma grid_eqI:
  assumes "grid h w b" "grid h w b'"
      and "\<And>q. inGrid h w q \<Longrightarrow> cellOf b' q = cellOf b q"
  shows "b' = b"
proof (rule nth_equalityI)
  from assms(1,2) show len: "length b' = length b" by (simp add: grid_def)
  fix i assume i: "i < length b'"
  with len assms(1,2) have rows: "int (length (b ! i)) = w" "int (length (b' ! i)) = w" 
    by (simp_all add: grid_def)
  show "b' ! i = b ! i"
  proof (rule nth_equalityI)
    from rows show "length (b' ! i) = length (b ! i)" by simp
    fix j assume j: "j < length (b' ! i)"
    have "inGrid h w (int i, int j)"
      using i j rows assms(2) by (auto simp: inGrid_def grid_def)
    from assms(3) [OF this] show "b' ! i ! j = b ! i ! j"
      by (simp add: cellOf_def)
  qed
qed

lemma cellOf_map:
  "grid h w b \<Longrightarrow> inGrid h w q \<Longrightarrow> cellOf (map (map f) b) q = f (cellOf b q)"
proof -
  assume g: "grid h w b" and q: "inGrid h w q"
  then have r: "nat (fst q) < length b" by (auto simp: grid_def inGrid_def)
  with g have "int (length (b ! nat (fst q))) = w" by (simp add: grid_def)
  with q have "nat (snd q) < length (b ! nat (fst q))" by (auto simp: inGrid_def)
  with r show ?thesis by (simp add: cellOf_def)
qed

lemma polishBoard_wellFormed:
  assumes "wellFormed s"
  shows "polishBoard s = Inr (s\<lparr>board := map (map polishChar) (board s)\<rparr>)"
proof -
  let ?h = "boardHeight s" and ?w = "boardWidth s"
  from assms have g: "grid ?h ?w (board s)" by (simp add: wellFormed_def)
  have "\<forall>p\<in>set (cells s). inGrid ?h ?w p" by (simp add: set_cells)
  from polishCells_inGrid [OF g this] obtain b' where
    b': "polishCells (board s) (cells s) = Inr b'" "grid ?h ?w b'"
        "\<forall>q. inGrid ?h ?w q \<longrightarrow>
            cellOf b' q = (if q \<in> set (cells s) then polishChar (cellOf (board s) q)
                           else cellOf (board s) q)"
    by blast
  have "b' = map (map polishChar) (board s)"
  proof (rule grid_eqI [OF grid_map [OF g] b'(2)])
    fix q assume q: "inGrid ?h ?w q"
    with b'(3) [rule_format, OF q] have "cellOf b' q = polishChar (cellOf (board s) q)"
      by (simp add: set_cells)
    then show "cellOf b' q = cellOf (map (map polishChar) (board s)) q"
      by (simp add: cellOf_map [OF g q])
  qed
  with b'(1) show ?thesis by (simp add: polishBoard_def)
qed

lemma while_rule:
  assumes "whileNotFinished s = Some y" "wellFormed s" "Inv s"
      and pop: "\<And>t. wellFormed t \<Longrightarrow> Inv t \<Longrightarrow> isBacktracking t \<Longrightarrow> path t \<noteq> [] \<Longrightarrow> Inv (popStep t)"
      and stop: "\<And>t. wellFormed t \<Longrightarrow> Inv t \<Longrightarrow> isBacktracking t \<Longrightarrow> path t = []
                  \<Longrightarrow> Inv (t\<lparr>finished := True\<rparr>)"
      and switch: "\<And>t. wellFormed t \<Longrightarrow> Inv t \<Longrightarrow> \<not> isBacktracking t
                  \<Longrightarrow> \<forall>d\<in>{0, 1, 2, 3}. isBlocked t (currentCell t) CHR ''X'' d
                  \<Longrightarrow> Inv (finishCheck (t\<lparr>isBacktracking := True\<rparr>))"
      and carve: "\<And>t k. wellFormed t \<Longrightarrow> Inv t \<Longrightarrow> \<not> isBacktracking t \<Longrightarrow> firstUnblocked t k
                  \<Longrightarrow> Inv (finishCheck (carveStep k t))"
  shows "\<exists>s'. y = Inr s' \<and> wellFormed s' \<and> Inv s' \<and> finished s'"
proof -
  define P where "P = (\<lambda>s (y :: error + run). wellFormed s \<longrightarrow> Inv s \<longrightarrow>
                         (\<exists>s'. y = Inr s' \<and> wellFormed s' \<and> Inv s' \<and> finished s'))"
  have "P s y"
  proof (rule whileNotFinished.raw_induct [where P = P, OF _ assms(1)])
    fix while' s y
    assume ih: "\<And>x y. while' x = Some y \<Longrightarrow> P x y"
      and eq: "(if finished s then Some (Inr s)
                else case loopBody s of None \<Rightarrow> None | Some (Inl e) \<Rightarrow> Some (Inl e)
                     | Some (Inr s') \<Rightarrow> while' s') = Some y"
    show "P s y"
      unfolding P_def
    proof (intro impI)
      assume wf: "wellFormed s" and inv: "Inv s"
      show "\<exists>s'. y = Inr s' \<and> wellFormed s' \<and> Inv s' \<and> finished s'"
      proof (cases "finished s")
        case True
        with eq wf inv show ?thesis by auto
      next
        case False
        with eq obtain z where z: "loopBody s = Some z"
          by (auto split: option.splits)
        from loopBody_rule [of s Inv z Inv, OF wf inv z pop stop switch carve]
        obtain t where t: "z = Inr t" "wellFormed t" "Inv t" by blast
        with eq False z have "while' t = Some y" by simp
        from ih [OF this] t(2,3) show ?thesis by (simp add: P_def)
      qed
    qed
  qed
  with assms(2,3) show ?thesis by (simp add: P_def)
qed

lemma init_fields [simp]:
  "board (init b w h sd) = b"
  "boardWidth (init b w h sd) = w"
  "boardHeight (init b w h sd) = h"
  "finished (init b w h sd) = False"
  "path (init b w h sd) = []"
  "isBacktracking (init b w h sd) = False"
  "seed (init b w h sd) = sd"
  by (simp_all add: init_def)

lemma fair_tapeRng: "fair (tapeRng xs)"
  unfolding fair_def
proof (intro allI impI)
  fix i d :: nat
  assume d: "d < 4"
  define n where "n = i + length xs"
  have m: "(4 * n + d) mod 4 = d"
    using d by presburger
  have "i \<le> 4 * n + d" "\<not> 4 * n + d < length xs"
    by (simp_all add: n_def)
  with m have "i \<le> 4 * n + d \<and> tapeRng xs (4 * n + d) mod 4 = d"
    by (simp add: tapeRng_def)
  then show "\<exists>j\<ge>i. tapeRng xs j mod 4 = d" by blast
qed

lemma grid_freshGrid: "0 \<le> h \<Longrightarrow> 0 \<le> w \<Longrightarrow> grid h w (freshGrid h w)"
  by (simp add: grid_def freshGrid_def)

lemma popStep_cases:
  assumes "wellFormed t" "path t \<noteq> []"
  shows "(board (popStep t) = putCell (board t) (last (path t)) CHR ''O''
           \<and> isBacktracking (popStep t) = isBacktracking t
           \<and> currentCell (popStep t) = last (path t))
         \<or> (\<exists>u. inGrid (boardHeight t) (boardWidth t) u
               \<and> cellOf (putCell (board t) (last (path t)) CHR ''O'') u = CHR ''.''
               \<and> board (popStep t)
                   = putCell (putCell (board t) (last (path t)) CHR ''O'') u CHR ''X''
               \<and> \<not> isBacktracking (popStep t)
               \<and> currentCell (popStep t) = u)"
proof -
  define cc where "cc = last (path t)"
  define s2 where "s2 = t\<lparr>board := putCell (board t) cc CHR ''O'', path := butlast (path t),
                    currentCell := cc\<rparr>"
  define us where "us = filter (isUnvisited s2) (map (neighbour cc) [0, 1, 2, 3])"
  define u where "u = us ! (rng t 0 mod length us)"
  note f = popStep_facts [OF assms(1,2), folded cc_def, folded s2_def, folded us_def, folded u_def]
  show ?thesis
  proof (cases "us = []")
    case True
    with f(2) show ?thesis by (simp add: s2_def cc_def)
  next
    case False
    from f(3) [OF False] have "inGrid (boardHeight t) (boardWidth t) u"
      "cellOf (putCell (board t) (last (path t)) CHR ''O'') u = CHR ''.''"
      by (simp_all add: isUnvisited_def s2_def cc_def)
    with f(4) [OF False] show ?thesis
      by (intro disjI2 exI [of _ u]) (simp add: s2_def cc_def)
  qed
qed

lemma generationAfter_entered:
  assumes "1 \<le> w" "1 \<le> h" "grid h w b"
  shows "generationAfter n (init b w h sd) g = rounds n (entered (init b w h sd) g)"
  using chooseStart_entered [of "init b w h sd" g] assms
  by (simp add: generationAfter_def)

lemma generation_invariant:
  assumes dims: "1 \<le> w" "1 \<le> h" "grid h w b"
      and run: "generationAfter n (init b w h sd) g = Some y"
      and start: "Inv (entered (init b w h sd) g)"
      and fin: "\<And>t f. Inv (t\<lparr>finished := f\<rparr>) = Inv t"
      and bt: "\<And>t f. Inv (t\<lparr>isBacktracking := f\<rparr>) = Inv t"
      and pop: "\<And>t. wellFormed t \<Longrightarrow> sized h w t \<Longrightarrow> Inv t \<Longrightarrow> isBacktracking t
                  \<Longrightarrow> path t \<noteq> [] \<Longrightarrow> Inv (popStep t)"
      and carve: "\<And>t k. wellFormed t \<Longrightarrow> sized h w t \<Longrightarrow> Inv t \<Longrightarrow> \<not> isBacktracking t
                  \<Longrightarrow> firstUnblocked t k \<Longrightarrow> Inv (carveStep k t)"
  shows "\<exists>s'. y = Inr s' \<and> wellFormed s' \<and> sized h w s' \<and> Inv s'"
proof -
  let ?S = "entered (init b w h sd) g"
  define J where "J = (\<lambda>t. sized h w t \<and> Inv t)"
  have wf: "wellFormed ?S"
    using dims by (intro wellFormed_entered) simp_all
  have j0: "J ?S"
    using start by (simp add: J_def sized_def)
  have r: "rounds n ?S = Some y"
    using run generationAfter_entered [OF dims] by simp
  have "\<exists>s'. y = Inr s' \<and> wellFormed s' \<and> J s'"
  proof (rule rounds_rule [of ?S J n y, OF wf j0 r])
    fix t assume "wellFormed t" "J t" "isBacktracking t" "path t \<noteq> []"
    then show "J (popStep t)"
      using pop [of t] by (simp add: J_def sized_def)
  next
    fix t assume "wellFormed t" "J t" "isBacktracking t" "path t = []"
    then show "J (t\<lparr>finished := True\<rparr>)"
      by (simp add: J_def sized_def fin)
  next
    fix t assume "wellFormed t" "J t" "\<not> isBacktracking t"
    then show "J (finishCheck (t\<lparr>isBacktracking := True\<rparr>))"
      by (simp add: J_def sized_def finishCheck_def fin bt)
  next
    fix t k assume "wellFormed t" "J t" "\<not> isBacktracking t" "firstUnblocked t k"
    then show "J (finishCheck (carveStep k t))"
      using carve [of t k] by (simp add: J_def sized_def finishCheck_def fin)
  qed
  then show ?thesis by (simp add: J_def)
qed

lemma generation_result:
  assumes dims: "1 \<le> w" "1 \<le> h" "grid h w b"
      and fair: "fair g"
  shows "\<exists>s'. generationAfter (nat (w * h)) (init b w h sd) g = Some (Inr s')
           \<and> finished s' \<and> wellFormed s' \<and> sized h w s'
           \<and> procedurelyGeneratedBoard (init b w h sd) g
               = Some (Inr (s'\<lparr>board := map (map polishChar) (board s')\<rparr>))"
proof -
  let ?O = "init b w h sd"
  let ?S = "entered ?O g"
  have cs: "chooseStart ?O g = Inr ?S"
    using dims by (intro chooseStart_entered) simp_all
  have wf: "wellFormed ?S"
    using dims by (intro wellFormed_entered) simp_all
  have "potential ?S \<le> nat (w * h)"
    using potential_entered [of ?O g] dims by simp
  moreover have "0 < potential ?S"
    by (simp add: potential_def)
  moreover have "fair (rng ?S)"
    using fair by (simp add: fair_advance)
  ultimately have "progress (nat (w * h)) ?S"
    by (simp add: progress_def)
  from rounds_finish [OF wf this] obtain s' where
    s': "rounds (nat (w * h)) ?S = Some (Inr s')" "finished s'" by blast
  then have ga: "generationAfter (nat (w * h)) ?O g = Some (Inr s')"
    using generationAfter_entered [OF dims] by simp
  from generation_invariant [of w h b _ sd g _ "\<lambda>t. True", OF dims ga]
  have wf': "wellFormed s'" "sized h w s'" by simp_all
  from rounds_while [OF s'] have "whileNotFinished ?S = Some (Inr s')" .
  with cs s'(2) have "procedurelyGeneratedBoard ?O g = Some (polishBoard s')"
    by (simp add: procedurelyGeneratedBoard_def)
  with ga s'(2) wf' polishBoard_wellFormed [OF wf'(1)] show ?thesis by simp
qed

lemma stackInv_popStep:
  assumes wf: "wellFormed t" and sz: "sized h w t" and st: "inGrid h w st"
      and inv: "stackInv st t" and ne: "path t \<noteq> []"
  shows "stackInv st (popStep t)"
proof -
  let ?cc = "last (path t)"
  let ?b1 = "putCell (board t) ?cc CHR ''O''"
  from sz have hw: "boardHeight t = h" "boardWidth t = w" by (simp_all add: sized_def)
  from wf hw have g: "grid h w (board t)" by (simp add: wellFormed_def)
  from wf ne hw have cc: "inGrid h w ?cc" by (simp add: wellFormed_def)
  have g1: "grid h w ?b1" using g by (rule grid_putCell)
  from inv ne have stcc: "st \<noteq> ?cc" by (auto simp: stackInv_def)
  have c1: "cellOf ?b1 q = cellOf (board t) q" if "inGrid h w q" "q \<noteq> ?cc" for q
    using cellOf_putCell [OF g cc that(1)] that(2) by simp
  have rest: "p \<noteq> ?cc \<and> inGrid h w p \<and> cellOf (board t) p = CHR ''X''"
    if "p \<in> set (butlast (path t))" for p
  proof -
    from inv have "distinct (butlast (path t) @ [?cc])"
      using ne by (simp add: stackInv_def)
    with that have "p \<noteq> ?cc" by auto
    moreover from that have "p \<in> set (path t)" by (rule in_set_butlastD)
    ultimately show ?thesis using wf inv hw by (simp add: wellFormed_def stackInv_def)
  qed
  have pth: "st \<notin> set (butlast (path t))" "distinct (butlast (path t))"
    using inv by (auto simp: stackInv_def distinct_butlast dest: in_set_butlastD)
  from popStep_cases [OF wf ne] show ?thesis
  proof (elim disjE conjE exE)
    assume b: "board (popStep t) = ?b1"
    have "cellOf ?b1 st = CHR ''X''"
      using c1 [OF st stcc] inv by (simp add: stackInv_def)
    moreover have "cellOf ?b1 p = CHR ''X''" if "p \<in> set (butlast (path t))" for p
      using rest [OF that] c1 [of p] by simp
    ultimately show ?thesis
      using pth by (simp add: stackInv_def b)
  next
    fix u
    assume u: "inGrid (boardHeight t) (boardWidth t) u"
      and b: "board (popStep t) = putCell ?b1 u CHR ''X''"
    from u hw have uin: "inGrid h w u" by simp
    have c2: "cellOf (putCell ?b1 u CHR ''X'') q = (if q = u then CHR ''X'' else cellOf ?b1 q)"
      if "inGrid h w q" for q
      using g1 uin that by (rule cellOf_putCell)
    have "cellOf (putCell ?b1 u CHR ''X'') st = CHR ''X''"
      using c2 [OF st] c1 [OF st stcc] inv by (simp add: stackInv_def)
    moreover have "cellOf (putCell ?b1 u CHR ''X'') p = CHR ''X''"
      if "p \<in> set (butlast (path t))" for p
      using rest [OF that] c1 [of p] c2 [of p] by simp
    ultimately show ?thesis
      using pth by (simp add: stackInv_def b)
  qed
qed

lemma stackInv_carveStep:
  assumes wf: "wellFormed t" and sz: "sized h w t" and st: "inGrid h w st"
      and inv: "stackInv st t" and fu: "firstUnblocked t k"
  shows "stackInv st (carveStep k t)"
proof -
  let ?n = "neighbour (currentCell t) (dirAt (rng t) k)"
  from sz have hw: "boardHeight t = h" "boardWidth t = w" by (simp_all add: sized_def)
  from wf hw have g: "grid h w (board t)" by (simp add: wellFormed_def)
  from fu hw have n: "inGrid h w ?n" "cellOf (board t) ?n \<noteq> CHR ''X''"
    by (simp_all add: firstUnblocked_def isBlocked_def)
  have c: "cellOf (putCell (board t) ?n CHR ''X'') q = (if q = ?n then CHR ''X'' else cellOf (board t) q)"
    if "inGrid h w q" for q
    using g n(1) that by (rule cellOf_putCell)
  from inv n(2) have "?n \<noteq> st" "?n \<notin> set (path t)"
    by (auto simp: stackInv_def)
  moreover have "cellOf (putCell (board t) ?n CHR ''X'') st = CHR ''X''"
    using c [OF st] inv by (simp add: stackInv_def)
  moreover have "cellOf (putCell (board t) ?n CHR ''X'') p = CHR ''X''"
    if "p \<in> set (path t)" for p
  proof -
    from that wf hw have "inGrid h w p" by (simp add: wellFormed_def)
    from c [OF this] inv that show ?thesis by (simp add: stackInv_def)
  qed
  moreover have "cellOf (putCell (board t) ?n CHR ''X'') ?n = CHR ''X''"
    using c [OF n(1)] by simp
  ultimately show ?thesis
    using inv by (simp add: stackInv_def)
qed

lemma run_stackInv:
  assumes dims: "1 \<le> w" "1 \<le> h" "grid h w b"
      and run: "generationAfter n (init b w h sd) g = Some y"
  shows "\<exists>s'. y = Inr s' \<and> wellFormed s' \<and> sized h w s'
            \<and> stackInv (startCell (init b w h sd) g) s'"
proof -
  let ?S = "init b w h sd"
  have st: "inGrid h w (startCell ?S g)"
    using startCell_inGrid [of ?S g] dims by simp
  have "cellOf (putCell b (startCell ?S g) CHR ''X'') (startCell ?S g) = CHR ''X''"
    using cellOf_putCell [OF dims(3) st st] by simp
  then have s0: "stackInv (startCell ?S g) (entered ?S g)"
    by (simp add: stackInv_def)
  show ?thesis
  proof (rule generation_invariant [where Inv = "stackInv (startCell ?S g)", OF dims run s0])
    fix t :: run and f
    show "stackInv (startCell ?S g) (t\<lparr>finished := f\<rparr>) = stackInv (startCell ?S g) t"
      by (simp add: stackInv_def)
    show "stackInv (startCell ?S g) (t\<lparr>isBacktracking := f\<rparr>) = stackInv (startCell ?S g) t"
      by (simp add: stackInv_def)
  next
    fix t :: run
    assume "wellFormed t" "sized h w t" "stackInv (startCell ?S g) t" "path t \<noteq> []"
    then show "stackInv (startCell ?S g) (popStep t)"
      using st by (intro stackInv_popStep)
  next
    fix t :: run and k
    assume "wellFormed t" "sized h w t" "stackInv (startCell ?S g) t" "firstUnblocked t k"
    then show "stackInv (startCell ?S g) (carveStep k t)"
      using st by (intro stackInv_carveStep)
  qed
qed

lemma alphabet_putCell:
  assumes "alphabet A b" "v \<in> A"
  shows "alphabet A (putCell b p v)"
proof (cases "nat (fst p) < length b")
  case True
  have "\<forall>x\<in>set row. x \<in> A" if "row \<in> set (putCell b p v)" for row
  proof -
    from that have "row = (b ! nat (fst p))[nat (snd p) := v] \<or> row \<in> set b"
      using set_update_subset_insert [of b "nat (fst p)"] by (auto simp: putCell_def)
    then show ?thesis
    proof
      assume r: "row = (b ! nat (fst p))[nat (snd p) := v]"
      from True have "b ! nat (fst p) \<in> set b" by (rule nth_mem)
      with assms(1) have "\<forall>x\<in>set (b ! nat (fst p)). x \<in> A"
        by (simp add: alphabet_def)
      with assms(2) show ?thesis
        using set_update_subset_insert [of "b ! nat (fst p)" "nat (snd p)" v]
        unfolding r by blast
    next
      assume "row \<in> set b"
      with assms(1) show ?thesis by (simp add: alphabet_def)
    qed
  qed
  then show ?thesis by (simp add: alphabet_def)
next
  case False
  with assms(1) show ?thesis by (simp add: putCell_def list_update_beyond)
qed

lemma run_alphabet:
  assumes dims: "1 \<le> w" "1 \<le> h" "grid h w b"
      and run: "generationAfter n (init b w h sd) g = Some y"
      and a: "alphabet A b" "CHR ''X'' \<in> A" "CHR ''O'' \<in> A"
  shows "\<exists>s'. y = Inr s' \<and> wellFormed s' \<and> sized h w s' \<and> alphabet A (board s')"
proof -
  let ?S = "init b w h sd"
  have s0: "alphabet A (board (entered ?S g))"
    using a by (simp add: alphabet_putCell)
  show ?thesis
  proof (rule generation_invariant [where Inv = "\<lambda>t. alphabet A (board t)", OF dims run s0])
    fix t :: run and f
    show "alphabet A (board (t\<lparr>finished := f\<rparr>)) = alphabet A (board t)" by simp
    show "alphabet A (board (t\<lparr>isBacktracking := f\<rparr>)) = alphabet A (board t)" by simp
  next
    fix t :: run
    assume t: "wellFormed t" "alphabet A (board t)" "path t \<noteq> []"
    from popStep_cases [OF t(1,3)] show "alphabet A (board (popStep t))"
      using t(2) a(2,3) by (auto simp: alphabet_putCell)
  next
    fix t :: run and k
    assume "alphabet A (board t)"
    then show "alphabet A (board (carveStep k t))"
      using a(2) by (simp add: alphabet_putCell)
  qed
qed



lemma loopBody_forward:
  assumes "wellFormed s" "\<not> isBacktracking s" "fair (rng s)"
      and "d \<in> {0, 1, 2, 3}" "\<not> isBlocked s (currentCell s) CHR ''X'' d"
  shows "\<exists>k. firstUnblocked s k \<and> loopBody s = Some (Inr (finishCheck (carveStep k s)))"
proof -
  let ?bl = "filter (isBlocked s (currentCell s) CHR ''X'') [0, 1, 2, 3]"
  from assms(4,5) have "d \<notin> set ?bl"
    by (simp only: blockedList_mem simp_thms not_False_eq_True)
  from fair_first [OF assms(3,4) this] obtain k where
    "\<forall>j<k. dirAt (rng s) j \<in> set ?bl" "dirAt (rng s) k \<notin> set ?bl" by blast
  then have fu: "firstUnblocked s k"
    by (simp only: blockedList_dirAt firstUnblocked_def simp_thms)
  have "backtrack s = Inr s"
    using assms(2) by (simp add: backtrack_stop)
  from loopBody_carve [OF this assms(1,2) fu] fu show ?thesis by blast
qed

lemma strip_run:
  fixes g sd
  defines "S \<equiv> init [''..''] 2 1 sd"
  assumes fair: "fair g"
  shows "\<exists>s1. rounds 1 (entered S g) = Some (Inr s1) \<and> finished s1 \<and> \<not> isBacktracking s1
            \<and> wellFormed s1 \<and> path s1 = [currentCell s1] \<and> currentCell s1 \<noteq> startCell S g
            \<and> board s1 = [''XX'']"
proof -
  have g: "grid 1 2 [''..'']" by (simp add: grid_def)
  have hw: "boardHeight S = 1" "boardWidth S = 2" "board S = [''..'']" "path S = []"
    "\<not> isBacktracking S" "\<not> finished S"
    by (simp_all add: S_def)
  have wf: "wellFormed (entered S g)"
    using g hw by (intro wellFormed_entered) simp_all
  have nb: "\<not> isBacktracking (entered S g)" "\<not> finished (entered S g)"
    using hw by simp_all
  have fr: "fair (rng (entered S g))"
    using fair by (simp add: fair_advance)
  define c where "c = g 1 mod 2"
  have st: "startCell S g = (0, int c)"
    by (simp add: startCell_def hw c_def)
  have "c < 2" by (simp add: c_def)
  then consider "c = 0" | "c = 1" by linarith
  then have "\<exists>k. loopBody (entered S g) = Some (Inr (finishCheck (carveStep k (entered S g))))
               \<and> board (carveStep k (entered S g)) = [''XX'']
               \<and> currentCell (carveStep k (entered S g)) \<noteq> startCell S g"
  proof cases
    case 1
    have b0: "putCell [''..''] (startCell S g) CHR ''X'' = [''X.'']"
      by (simp add: st 1 putCell_def)
    have bl: "isBlocked (entered S g) (0, 0) CHR ''X'' 0" "isBlocked (entered S g) (0, 0) CHR ''X'' 1"
      "\<not> isBlocked (entered S g) (0, 0) CHR ''X'' 2" "isBlocked (entered S g) (0, 0) CHR ''X'' 3"
      by (simp_all add: isBlocked_def neighbour_def inGrid_def hw b0 cellOf_def)
    from loopBody_forward [OF wf nb(1) fr, of 2] bl(3) obtain k where
      k: "firstUnblocked (entered S g) k"
         "loopBody (entered S g) = Some (Inr (finishCheck (carveStep k (entered S g))))"
      by (auto simp: st 1)
    from k(1) have "\<not> isBlocked (entered S g) (0, 0) CHR ''X'' (dirAt (rng (entered S g)) k)"
      by (simp add: firstUnblocked_def st 1)
    with bl dirAt_range [of "rng (entered S g)" k] have "dirAt (rng (entered S g)) k = 2"
      by auto
    then have "board (carveStep k (entered S g)) = [''XX'']"
      "currentCell (carveStep k (entered S g)) = (0, 1)"
      by (simp_all add: st 1 neighbour_def hw b0 putCell_def)
    with k(2) show ?thesis by (auto simp: st 1)
  next
    case 2
    have b0: "putCell [''..''] (startCell S g) CHR ''X'' = [''.X'']"
      by (simp add: st 2 putCell_def)
    have bl: "isBlocked (entered S g) (0, 1) CHR ''X'' 0" "isBlocked (entered S g) (0, 1) CHR ''X'' 1"
      "isBlocked (entered S g) (0, 1) CHR ''X'' 2" "\<not> isBlocked (entered S g) (0, 1) CHR ''X'' 3"
      by (simp_all add: isBlocked_def neighbour_def inGrid_def hw b0 cellOf_def)
    from loopBody_forward [OF wf nb(1) fr, of 3] bl(4) obtain k where
      k: "firstUnblocked (entered S g) k"
         "loopBody (entered S g) = Some (Inr (finishCheck (carveStep k (entered S g))))"
      by (auto simp: st 2)
    from k(1) have "\<not> isBlocked (entered S g) (0, 1) CHR ''X'' (dirAt (rng (entered S g)) k)"
      by (simp add: firstUnblocked_def st 2)
    with bl dirAt_range [of "rng (entered S g)" k] have "dirAt (rng (entered S g)) k = 3"
      by auto
    then have "board (carveStep k (entered S g)) = [''XX'']"
      "currentCell (carveStep k (entered S g)) = (0, 0)"
      by (simp_all add: st 2 neighbour_def hw b0 putCell_def)
    with k(2) show ?thesis by (auto simp: st 2)
  qed
  then obtain k where
    k: "loopBody (entered S g) = Some (Inr (finishCheck (carveStep k (entered S g))))"
       "board (carveStep k (entered S g)) = [''XX'']"
       "currentCell (carveStep k (entered S g)) \<noteq> startCell S g"
    by blast
  let ?t = "carveStep k (entered S g)"
  have "cellOf [''XX''] p \<noteq> CHR ''.''" if "inGrid 1 2 p" for p
  proof -
    from that have "fst p = 0" "snd p = 0 \<or> snd p = 1" by (auto simp: inGrid_def)
    then show ?thesis by (auto simp: cellOf_def)
  qed
  then have nd: "noDots ?t"
    unfolding noDots_def k(2) carveStep_fields(1,2) entered_fields(1,2) hw(1,2) by blast
  have wf1: "wellFormed (finishCheck ?t)"
    using loopBody_rule [of "entered S g" "\<lambda>t. True" "Inr (finishCheck ?t)" "\<lambda>t. True"] wf k(1)
    by simp
  have "rounds 1 (entered S g) = Some (Inr (finishCheck ?t))"
    using nb(2) k(1) by (simp add: One_nat_def [symmetric] del: One_nat_def)
       (simp add: k(1) nb(2))
  moreover have "finished (finishCheck ?t)" using nd by simp
  moreover have "\<not> isBacktracking (finishCheck ?t)" using hw by simp
  moreover have "path (finishCheck ?t) = [currentCell (finishCheck ?t)]" using hw by simp
  moreover have "currentCell (finishCheck ?t) \<noteq> startCell S g" using k(3) by simp
  moreover have "board (finishCheck ?t) = [''XX'']" using k(2) by simp
  ultimately show ?thesis using wf1 by blast
qed

lemma start_cell_wall:
  assumes dims: "1 \<le> w" "1 \<le> h" "grid h w b" and fair: "fair g"
  shows "\<exists>s'. procedurelyGeneratedBoard (init b w h sd) g = Some (Inr s')
           \<and> grid h w (getBoard s')
           \<and> cellOf (getBoard s') (startCell (init b w h sd) g) = CHR ''#''"
proof -
  let ?O = "init b w h sd"
  have st: "inGrid h w (startCell ?O g)"
    using startCell_inGrid [of ?O g] dims by simp
  from generation_result [OF dims fair] obtain s' where
    s': "generationAfter (nat (w * h)) ?O g = Some (Inr s')" "wellFormed s'" "sized h w s'"
        "procedurelyGeneratedBoard ?O g = Some (Inr (s'\<lparr>board := map (map polishChar) (board s')\<rparr>))"
    by blast
  from run_stackInv [OF dims s'(1)]
  have x: "cellOf (board s') (startCell ?O g) = CHR ''X''"
    by (simp add: stackInv_def)
  from s'(2,3) have g: "grid h w (board s')"
    by (simp add: wellFormed_def sized_def)
  from cellOf_map [OF g st] x
  have "cellOf (map (map polishChar) (board s')) (startCell ?O g) = CHR ''#''"
    by (simp add: polishChar_def)
  with s'(4) grid_map [OF g] show ?thesis by (simp add: getBoard_def)
qed

lemma observed_Inr:
  "observed r = Some (Inr v) \<Longrightarrow> \<exists>s. r = Some (Inr s) \<and> observe s = v"
  by (cases r) (auto simp: observed_def map_sum_def split: sum.splits)

section \<open>The claims\<close>

text \<open>
  In what follows \<open>init b w h sd\<close> is the object that \<^verbatim>\<open>ProceduralBoard(b, w, h, sd)\<close>
  makes and \<open>g\<close> the state of the random module when \<^verbatim>\<open>procedurelyGeneratedBoard\<close> is
  called on it; \<open>generationAfter n\<close> is the state of that call after at most \<open>n\<close> rounds
  of its outer loop, and \<open>fair\<close> says of the random source that each of the four
  directions keeps being drawn.
\<close>

text \<open>
  C1, as amended. For a width and a height of at least 1, a grid of those dimensions
  and a fair random source, generation terminates, and it does so within
  width times height rounds of the outer loop: after that many rounds \<open>finished\<close> is
  set, and \<^verbatim>\<open>procedurelyGeneratedBoard\<close> returns that state with its board polished.
\<close>

theorem generation_terminates:
  assumes "1 \<le> w" "1 \<le> h" "grid h w b" "fair g"
  shows "\<exists>s'. generationAfter (nat (w * h)) (init b w h sd) g = Some (Inr s')
           \<and> finished s'
           \<and> procedurelyGeneratedBoard (init b w h sd) g
               = Some (Inr (s'\<lparr>board := map (map polishChar) (board s')\<rparr>))"
  using generation_result [OF assms] by blast

theorem generation_terminates_witness:
  "\<exists>s'. generationAfter 5 (init (freshGrid 1 5) 5 1 None) (tapeRng []) = Some (Inr s')
      \<and> finished s'
      \<and> procedurelyGeneratedBoard (init (freshGrid 1 5) 5 1 None) (tapeRng [])
          = Some (Inr (s'\<lparr>board := map (map polishChar) (board s')\<rparr>))"
  using generation_terminates [where w = 5 and h = 1 and b = "freshGrid 1 5"
      and g = "tapeRng []" and sd = None]
  by (simp add: grid_freshGrid fair_tapeRng)

text \<open>
  C1 as stated fails. On a fresh grid of one row and five columns, with the random
  source that counts 0, 1, 2, ..., the start cell is column 1 and three rounds carve
  the columns 2, 3 and 4. The fourth round finds all four directions blocked: it only
  sets \<open>isBacktracking\<close>, so it carves nothing, pops nothing and does not end the run.
  The fifth round pops the three cells: three carving and three backtracking steps,
  more than the five cells of the grid.
\<close>

theorem idle_round_counterexample:
  "observed (generationAfter 3 (init (freshGrid 1 5) 5 1 None) (tapeRng []))
     = Some (Inr ([''.XXXX''], [(0, 2), (0, 3), (0, 4)], (0, 4), False, False))
   \<and> observed (generationAfter 4 (init (freshGrid 1 5) 5 1 None) (tapeRng []))
     = Some (Inr ([''.XXXX''], [(0, 2), (0, 3), (0, 4)], (0, 4), True, False))
   \<and> observed (generationAfter 5 (init (freshGrid 1 5) 5 1 None) (tapeRng []))
     = Some (Inr ([''.XOOO''], [], (0, 2), True, True))"
  by code_simp







text \<open>
  C4. For a width and a height of at least 1 and a grid of those dimensions, the start
  cell is the cursor on entry to the loop and is carved; after any number of rounds it
  is not on the backtrack stack and still holds \<^verbatim>\<open>'X'\<close>; and the grid a run with a fair
  random source returns holds the wall marker \<^verbatim>\<open>'#'\<close> there.
\<close>

theorem start_cell_stays_carved:
  fixes b w h sd g
  defines "self \<equiv> init b w h sd"
  assumes "1 \<le> w" "1 \<le> h" "grid h w b"
  shows "(\<exists>s0. chooseStart self g = Inr s0 \<and> currentCell s0 = startCell self g
              \<and> cellOf (board s0) (startCell self g) = CHR ''X'')
       \<and> (\<forall>n y. generationAfter n self g = Some y \<longrightarrow>
              (\<exists>s'. y = Inr s' \<and> startCell self g \<notin> set (path s')
                   \<and> cellOf (board s') (startCell self g) = CHR ''X''))
       \<and> (fair g \<longrightarrow>
              (\<exists>s'. procedurelyGeneratedBoard self g = Some (Inr s')
                   \<and> cellOf (getBoard s') (startCell self g) = CHR ''#''))"
proof (intro conjI allI impI)
  note dims = assms(2-4)
  have st: "inGrid h w (startCell self g)"
    using startCell_inGrid [of self g] dims by (simp add: self_def)
  have "chooseStart self g = Inr (entered self g)"
    unfolding self_def using dims by (intro chooseStart_entered) simp_all
  moreover have "cellOf (board (entered self g)) (startCell self g) = CHR ''X''"
    using cellOf_putCell [OF dims(3) st st] by (simp add: self_def)
  ultimately show "\<exists>s0. chooseStart self g = Inr s0 \<and> currentCell s0 = startCell self g
              \<and> cellOf (board s0) (startCell self g) = CHR ''X''"
    by simp
  show "\<exists>s'. y = Inr s' \<and> startCell self g \<notin> set (path s')
             \<and> cellOf (board s') (startCell self g) = CHR ''X''"
    if "generationAfter n self g = Some y" for n y
    using run_stackInv [OF dims that [unfolded self_def]]
    by (auto simp: stackInv_def self_def)
  show "\<exists>s'. procedurelyGeneratedBoard self g = Some (Inr s')
             \<and> cellOf (getBoard s') (startCell self g) = CHR ''#''"
    if "fair g"
    using start_cell_wall [OF dims that] unfolding self_def by blast
qed

theorem start_cell_stays_carved_witness:
  "\<exists>s5 s'. generationAfter 5 (init (freshGrid 1 5) 5 1 None) (tapeRng []) = Some (Inr s5)
      \<and> startCell (init (freshGrid 1 5) 5 1 None) (tapeRng []) \<notin> set (path s5)
      \<and> cellOf (board s5) (startCell (init (freshGrid 1 5) 5 1 None) (tapeRng [])) = CHR ''X''
      \<and> procedurelyGeneratedBoard (init (freshGrid 1 5) 5 1 None) (tapeRng []) = Some (Inr s')
      \<and> cellOf (getBoard s') (startCell (init (freshGrid 1 5) 5 1 None) (tapeRng [])) = CHR ''#''"
proof -
  let ?O = "init (freshGrid 1 5) 5 1 None"
  let ?g = "tapeRng []"
  have g: "grid 1 5 (freshGrid 1 5)" by (simp add: grid_freshGrid)
  have f: "fair ?g" by (rule fair_tapeRng)
  from generation_result [OF _ _ g f] obtain s5 where
    ga: "generationAfter 5 ?O ?g = Some (Inr s5)" by auto
  from start_cell_stays_carved [where w = 5 and h = 1 and b = "freshGrid 1 5"
      and g = ?g and sd = None] g f
  have a: "\<forall>n y. generationAfter n ?O ?g = Some y \<longrightarrow>
              (\<exists>s'. y = Inr s' \<and> startCell ?O ?g \<notin> set (path s')
                   \<and> cellOf (board s') (startCell ?O ?g) = CHR ''X'')"
    and b: "\<exists>s'. procedurelyGeneratedBoard ?O ?g = Some (Inr s')
                   \<and> cellOf (getBoard s') (startCell ?O ?g) = CHR ''#''"
    by simp_all
  from a [rule_format, OF ga] ga b show ?thesis by blast
qed

text \<open>
  C5. For a width and a height of at least 1, a fresh all-unvisited grid and a fair
  random source, generation returns a grid of the same dimensions in which every
  cell is the wall marker \<^verbatim>\<open>'#'\<close> or the floor marker \<^verbatim>\<open>'.'\<close>; in particular no cell is
  \<^verbatim>\<open>'X'\<close> or \<^verbatim>\<open>'O'\<close>.
\<close>

theorem alphabet_closure:
  assumes "1 \<le> w" "1 \<le> h" "fair g"
  shows "\<exists>s'. procedurelyGeneratedBoard (init (freshGrid h w) w h sd) g = Some (Inr s')
           \<and> grid h w (getBoard s')
           \<and> (\<forall>row \<in> set (getBoard s'). \<forall>x \<in> set row. x = CHR ''#'' \<or> x = CHR ''.'')"
proof -
  let ?O = "init (freshGrid h w) w h sd"
  let ?A = "{CHR ''.'', CHR ''X'', CHR ''O''}"
  have g: "grid h w (freshGrid h w)"
    using assms(1,2) by (intro grid_freshGrid) simp_all
  from generation_result [OF assms(1,2) g assms(3)] obtain s' where
    s': "generationAfter (nat (w * h)) ?O g = Some (Inr s')" "wellFormed s'" "sized h w s'"
        "procedurelyGeneratedBoard ?O g = Some (Inr (s'\<lparr>board := map (map polishChar) (board s')\<rparr>))"
    by blast
  have "alphabet ?A (freshGrid h w)"
    by (simp add: alphabet_def freshGrid_def)
  from run_alphabet [OF assms(1,2) g s'(1) this] have a: "alphabet ?A (board s')"
    by simp
  have "x = CHR ''#'' \<or> x = CHR ''.''"
    if "row \<in> set (map (map polishChar) (board s'))" "x \<in> set row" for row x
  proof -
    from that obtain r0 x0 where "r0 \<in> set (board s')" "x0 \<in> set r0" "x = polishChar x0"
      by auto
    with a show ?thesis by (auto simp: alphabet_def polishChar_def)
  qed
  moreover from s'(2,3) have "grid h w (map (map polishChar) (board s'))"
    by (simp add: wellFormed_def sized_def grid_map)
  ultimately show ?thesis
    using s'(4) by (auto simp: getBoard_def)
qed

theorem alphabet_closure_witness:
  "\<exists>s'. procedurelyGeneratedBoard (init (freshGrid 2 3) 3 2 None) (tapeRng [0, 0, 2, 0, 3, 0, 1])
           = Some (Inr s')
      \<and> grid 2 3 (getBoard s')
      \<and> (\<forall>row \<in> set (getBoard s'). \<forall>x \<in> set row. x = CHR ''#'' \<or> x = CHR ''.'')"
  using alphabet_closure [where w = 3 and h = 2
      and g = "tapeRng [0, 0, 2, 0, 3, 0, 1]" and sd = None]
  by (simp add: fair_tapeRng)






text \<open>
  C8, as amended. The generator does not reset the grid. \<^verbatim>\<open>__init__\<close> keeps the caller's
  buffer as it is, and generation begins with the draw of the start cell, which becomes
  the cursor and is marked Carved; on entry to the loop every other cell holds what the
  buffer held before the call.
\<close>

theorem grid_not_reset:
  fixes b w h sd g
  defines "self \<equiv> init b w h sd"
  assumes "1 \<le> w" "1 \<le> h" "grid h w b"
  shows "getBoard self = b
       \<and> (\<exists>s0. generationAfter 0 self g = Some (Inr s0)
              \<and> currentCell s0 = startCell self g
              \<and> cellOf (board s0) (startCell self g) = CHR ''X''
              \<and> (\<forall>q. inGrid h w q \<and> q \<noteq> startCell self g
                     \<longrightarrow> cellOf (board s0) q = cellOf b q))"
proof (intro conjI)
  note dims = assms(2-4)
  show "getBoard self = b" by (simp add: getBoard_def self_def)
  have st: "inGrid h w (startCell self g)"
    using startCell_inGrid [of self g] dims by (simp add: self_def)
  have "generationAfter 0 self g = Some (Inr (entered self g))"
    using generationAfter_entered [OF dims, of 0] by (simp add: self_def)
  moreover have "cellOf (board (entered self g)) q
                 = (if q = startCell self g then CHR ''X'' else cellOf b q)"
    if "inGrid h w q" for q
    using cellOf_putCell [OF dims(3) st that] by (simp add: self_def)
  ultimately show "\<exists>s0. generationAfter 0 self g = Some (Inr s0)
              \<and> currentCell s0 = startCell self g
              \<and> cellOf (board s0) (startCell self g) = CHR ''X''
              \<and> (\<forall>q. inGrid h w q \<and> q \<noteq> startCell self g
                     \<longrightarrow> cellOf (board s0) q = cellOf b q)"
    using st by simp
qed

theorem grid_not_reset_witness:
  "getBoard (init [''.O''] 2 1 None) = [''.O'']
   \<and> (\<exists>s0. generationAfter 0 (init [''.O''] 2 1 None) (tapeRng [0, 0]) = Some (Inr s0)
          \<and> cellOf (board s0) (0, 1) = CHR ''O'')"
proof -
  let ?O = "init [''.O''] 2 1 None"
  let ?g = "tapeRng [0, 0]"
  have g: "grid 1 2 [''.O'']" by (simp add: grid_def)
  have st: "startCell ?O ?g = (0, 0)" by (simp add: startCell_def tapeRng_def)
  have q: "inGrid 1 2 (0, 1) \<and> (0, 1) \<noteq> startCell ?O ?g"
    by (simp add: st inGrid_def)
  have c: "cellOf [''.O''] (0, 1) = CHR ''O''" by (simp add: cellOf_def)
  from grid_not_reset [where w = 2 and h = 1 and b = "[''.O'']"
      and g = ?g and sd = None] g
  obtain s0 where "getBoard ?O = [''.O'']" "generationAfter 0 ?O ?g = Some (Inr s0)"
    "\<forall>q. inGrid 1 2 q \<and> q \<noteq> startCell ?O ?g \<longrightarrow> cellOf (board s0) q = cellOf [''.O''] q"
    by auto
  with q c show ?thesis by auto
qed

text \<open>
  C8 as stated fails. With the buffer \<^verbatim>\<open>[['.', 'O']]\<close> the cell (0, 1) still holds
  \<^verbatim>\<open>'O'\<close> on entry to the loop, the start cell (0, 0) finds it blocked, and the run
  returns \<^verbatim>\<open>[['#', '.']]\<close>; the same run on the all-unvisited buffer returns
  \<^verbatim>\<open>[['#', '#']]\<close>.
\<close>

theorem stale_buffer_counterexample:
  "observed (generationAfter 0 (init [''.O''] 2 1 None) (tapeRng [0, 0]))
     = Some (Inr ([''XO''], [], (0, 0), False, False))
   \<and> observed (procedurelyGeneratedBoard (init [''.O''] 2 1 None) (tapeRng [0, 0]))
     = Some (Inr ([''#.''], [], (0, 0), True, True))
   \<and> observed (procedurelyGeneratedBoard (init [''..''] 2 1 None) (tapeRng [0, 0]))
     = Some (Inr ([''##''], [(0, 1)], (0, 1), False, True))"
  by code_simp

text \<open>
  C9. On the grid of one row and two columns, both unvisited, with width 2 and height 1
  and a fair random source: the first round carves the cell that is not the start
  cell by a forward move and ends the run, with that cell alone on the stack and
  backtracking never entered, and the grid returned is \<^verbatim>\<open>[['#', '#']]\<close>.
\<close>

theorem strip_of_two_cells:
  fixes sd g
  defines "self \<equiv> init [''..''] 2 1 sd"
  assumes "fair g"
  shows "\<exists>s1 s'. generationAfter 1 self g = Some (Inr s1) \<and> finished s1 \<and> \<not> isBacktracking s1
           \<and> path s1 = [currentCell s1] \<and> currentCell s1 \<noteq> startCell self g
           \<and> procedurelyGeneratedBoard self g = Some (Inr s') \<and> getBoard s' = [''##'']"
proof -
  have gr: "grid 1 2 [''..'']" by (simp add: grid_def)
  from strip_run [OF assms(2)] obtain s1 where
    s1: "rounds 1 (entered self g) = Some (Inr s1)" "finished s1" "\<not> isBacktracking s1"
        "wellFormed s1" "path s1 = [currentCell s1]" "currentCell s1 \<noteq> startCell self g"
        "board s1 = [''XX'']"
    unfolding self_def by blast
  have ga: "generationAfter 1 self g = Some (Inr s1)"
    using generationAfter_entered [where w = 2 and h = 1 and b = "[''..'']"
        and n = 1 and g = g and sd = sd] gr s1(1)
    by (simp add: self_def)
  have cs: "chooseStart self g = Inr (entered self g)"
    unfolding self_def using gr by (intro chooseStart_entered) simp_all
  from rounds_while [OF s1(1,2)] have "whileNotFinished (entered self g) = Some (Inr s1)" .
  with cs s1(2) have "procedurelyGeneratedBoard self g = Some (polishBoard s1)"
    by (simp add: procedurelyGeneratedBoard_def)
  also have "polishBoard s1 = Inr (s1\<lparr>board := [''##'']\<rparr>)"
    using polishBoard_wellFormed [OF s1(4)] by (simp add: s1(7) polishChar_def)
  finally have "procedurelyGeneratedBoard self g = Some (Inr (s1\<lparr>board := [''##'']\<rparr>))" .
  moreover have "getBoard (s1\<lparr>board := [''##'']\<rparr>) = [''##'']"
    by (simp add: getBoard_def)
  ultimately show ?thesis using ga s1 by blast
qed

theorem strip_of_two_cells_witness:
  "\<exists>s1 s'. generationAfter 1 (init [''..''] 2 1 None) (tapeRng []) = Some (Inr s1)
      \<and> finished s1 \<and> \<not> isBacktracking s1
      \<and> path s1 = [currentCell s1]
      \<and> currentCell s1 \<noteq> startCell (init [''..''] 2 1 None) (tapeRng [])
      \<and> procedurelyGeneratedBoard (init [''..''] 2 1 None) (tapeRng []) = Some (Inr s')
      \<and> getBoard s' = [''##'']"
  using strip_of_two_cells [where g = "tapeRng []" and sd = None]
  by (simp add: fair_tapeRng)

text \<open>
  C10. For a width and a height of at least 1 and a grid of those dimensions, whatever
  the random source draws: after any number of rounds the run has raised no error, the
  cursor and the cells on the stack lie inside the grid and the grid has kept its
  dimensions; and generation as a whole never ends in an error, so no access to the
  grid is out of range.
\<close>

theorem accesses_stay_in_grid:
  fixes b w h sd g
  defines "self \<equiv> init b w h sd"
  assumes "1 \<le> w" "1 \<le> h" "grid h w b"
  shows "(\<forall>n y. generationAfter n self g = Some y \<longrightarrow>
              (\<exists>s'. y = Inr s' \<and> inGrid h w (currentCell s')
                   \<and> (\<forall>p \<in> set (path s'). inGrid h w p) \<and> grid h w (board s')))
       \<and> (\<forall>e. procedurelyGeneratedBoard self g \<noteq> Some (Inl e))"
proof (intro conjI allI impI)
  note dims = assms(2-4)
  show "\<exists>s'. y = Inr s' \<and> inGrid h w (currentCell s')
           \<and> (\<forall>p \<in> set (path s'). inGrid h w p) \<and> grid h w (board s')"
    if "generationAfter n self g = Some y" for n y
  proof -
    from generation_invariant [where Inv = "\<lambda>t. True", OF dims that [unfolded self_def]]
    obtain s' where "y = Inr s'" "wellFormed s'" "sized h w s'" by auto
    then show ?thesis by (auto simp: wellFormed_def sized_def)
  qed
  show "procedurelyGeneratedBoard self g \<noteq> Some (Inl e)" for e
  proof (cases "whileNotFinished (entered self g)")
    case None
    then show ?thesis
      using chooseStart_entered [of self g] dims
      by (simp add: procedurelyGeneratedBoard_def self_def)
  next
    case (Some y)
    have wf: "wellFormed (entered self g)"
      unfolding self_def using dims by (intro wellFormed_entered) simp_all
    from while_rule [where Inv = "\<lambda>t. True", OF Some wf]
    obtain s' where s': "y = Inr s'" "wellFormed s'" "finished s'" by auto
    from polishBoard_wellFormed [OF s'(2)] Some s'(1,3) show ?thesis
      using chooseStart_entered [of self g] dims
      by (simp add: procedurelyGeneratedBoard_def self_def)
  qed
qed

theorem accesses_stay_in_grid_witness:
  "(\<exists>s'. generationAfter 5 (init (freshGrid 1 5) 5 1 None) (tapeRng []) = Some (Inr s')
         \<and> inGrid 1 5 (currentCell s') \<and> grid 1 5 (board s'))
   \<and> (\<forall>e. procedurelyGeneratedBoard (init (freshGrid 1 5) 5 1 None) (tapeRng [])
            \<noteq> Some (Inl e))"
proof -
  let ?O = "init (freshGrid 1 5) 5 1 None"
  let ?g = "tapeRng []"
  have g: "grid 1 5 (freshGrid 1 5)" by (simp add: grid_freshGrid)
  have "fair ?g" by (rule fair_tapeRng)
  from generation_result [OF _ _ g this] obtain s' where
    ga: "generationAfter 5 ?O ?g = Some (Inr s')" by auto
  from accesses_stay_in_grid [where w = 5 and h = 1 and b = "freshGrid 1 5"
      and g = ?g and sd = None] g
  have a: "\<forall>n y. generationAfter n ?O ?g = Some y \<longrightarrow>
              (\<exists>s'. y = Inr s' \<and> inGrid 1 5 (currentCell s')
                   \<and> (\<forall>p \<in> set (path s'). inGrid 1 5 p) \<and> grid 1 5 (board s'))"
    and b: "\<forall>e. procedurelyGeneratedBoard ?O ?g \<noteq> Some (Inl e)"
    by simp_all
  from a [rule_format, OF ga] ga b show ?thesis by blast
qed

end
